theory Spec2Isabelle
  imports Complex_Main "HOL-Library.Sublist"
begin

section \<open>Data model (types.ts)\<close>

text \<open>
  The string-literal union type of \<^verbatim>\<open>PinInfo.electrical_type\<close> is a datatype, the interfaces
  are records.
\<close>

datatype electrical_type =
  Input | Output | Bidirectional | Power_in | Power_out | Passive | Not_connected

record PinInfo =
  pin_number :: string
  pin_name :: string
  electrical_type :: electrical_type
  description :: string

text \<open>
  \<open>FootprintData\<close> keeps the fields that \<^verbatim>\<open>VisualPreview.tsx\<close> reads. A field that may be
  absent at run time is an \<open>option\<close>; the fields carry the prefix \<open>fd\<close>, and
  \<open>fd_bodyWidth_nominal\<close> stands for
  \<^verbatim>\<open>data.dimensions?.bodyWidth?.nominal\<close>, which is absent when any link of the chain is, and
  likewise for the other dimensions. Numbers that arrive in the bundle are rationals.
\<close>

record FootprintData =
  fd_pinCount :: "rat option"
  fd_bodyWidth_nominal :: "rat option"
  fd_bodyLength_nominal :: "rat option"
  fd_height_nominal :: "rat option"
  fd_pitch_nominal :: "rat option"
  fd_kicadMod :: string
  fd_component_name :: "string option"
  fd_pins :: "PinInfo list option"

section \<open>Schematic symbol: side assignment and rebalancing\<close>

definition leftSideTypes :: "electrical_type list" where
  "leftSideTypes = [Input, Bidirectional, Passive, Power_in]"

text \<open>\<^verbatim>\<open>Math.ceil(n / 2)\<close> for an array length \<open>n\<close>.\<close>

definition ceil_half :: "nat \<Rightarrow> nat" where
  "ceil_half n = nat \<lceil>real n / 2\<rceil>"

text \<open>
  \<^verbatim>\<open>a.splice(0, k)\<close> removes the first \<open>k\<close> elements of \<open>a\<close> and returns them;
  the pair is (removed, what is left in \<open>a\<close>).
\<close>

definition splice0 :: "'a list \<Rightarrow> nat \<Rightarrow> 'a list \<times> 'a list" where
  "splice0 a k = (take k a, drop k a)"

text \<open>
  Lines 25 to 35 (and again 114 to 118 in the click handler). The function is generic in
  the element type so that the click handler can run it on object references; \<open>info\<close>
  reads the \<open>PinInfo\<close> behind an element.
\<close>

definition layoutSides :: "('a \<Rightarrow> PinInfo) \<Rightarrow> 'a list \<Rightarrow> 'a list \<times> 'a list" where
  "layoutSides info activePins =
     (let leftPins = filter (\<lambda>p. electrical_type (info p) \<in> set leftSideTypes) activePins;
          rightPins = filter (\<lambda>p. electrical_type (info p) \<notin> set leftSideTypes) activePins
      in if length leftPins = 0 \<and> length rightPins > 0 then
           (let half = ceil_half (length rightPins);
                (moved, rest) = splice0 rightPins half
            in (leftPins @ moved, rest))
         else if length rightPins = 0 \<and> length leftPins > 0 then
           (let half = ceil_half (length leftPins);
                (moved, rest) = splice0 leftPins half
            in (rest, rightPins @ moved))
         else (leftPins, rightPins))"

section \<open>Schematic symbol: drawing and click handling\<close>

definition pinSpacing :: real where "pinSpacing = 35"
definition boxWidth :: real where "boxWidth = 160"
definition pinLen :: real where "pinLen = 30"

text \<open>The canvas of the symbol: width 400, height \<open>boxHeight + 100\<close> (lines 37 to 46).\<close>

definition boxHeight :: "'a list \<Rightarrow> 'a list \<Rightarrow> real" where
  "boxHeight leftPins rightPins =
     (let maxSidePins = max (length leftPins) (length rightPins)
      in max 100 ((real maxSidePins + 1) * pinSpacing))"

definition symbolCanvasWidth :: real where "symbolCanvasWidth = 400"

definition symbolCanvasHeight :: "PinInfo list \<Rightarrow> real" where
  "symbolCanvasHeight pins =
     (let (leftPins, rightPins) = layoutSides (\<lambda>p. p) pins
      in boxHeight leftPins rightPins + 100)"

text \<open>
  What \<^verbatim>\<open>drawSidePins\<close> strokes for one pin: the lead from the box edge \<open>(edge_x, lead_y)\<close>
  to its outer endpoint \<open>(outer_x, lead_y)\<close>, labelled with the pin number.
\<close>

record lead =
  lead_number :: string
  edge_x :: real
  outer_x :: real
  lead_y :: real
  lead_selected :: bool

definition drawSidePins ::
  "real \<Rightarrow> real \<Rightarrow> string option \<Rightarrow> PinInfo list \<Rightarrow> bool \<Rightarrow> lead list" where
  "drawSidePins centerX centerY selectedPinNumber sidePins isLeft =
     map (\<lambda>(i, pin).
            let isSelected = (selectedPinNumber = Some (pin_number pin));
                y = centerY - (real (length sidePins) - 1) * pinSpacing / 2 + real i * pinSpacing;
                x = (if isLeft then centerX - boxWidth / 2 else centerX + boxWidth / 2)
            in \<lparr>lead_number = pin_number pin, edge_x = x,
                outer_x = (if isLeft then x - pinLen else x + pinLen),
                lead_y = y, lead_selected = isSelected\<rparr>)
         (enumerate 0 sidePins)"

text \<open>The drawing effect (lines 18 to 98): nothing is drawn for an empty pin list.\<close>

definition schematicDraw :: "PinInfo list \<Rightarrow> string option \<Rightarrow> lead list" where
  "schematicDraw pins selectedPinNumber =
     (if length pins = 0 then []
      else let (leftPins, rightPins) = layoutSides (\<lambda>p. p) pins;
               centerX = symbolCanvasWidth / 2;
               centerY = (boxHeight leftPins rightPins + 100) / 2
           in drawSidePins centerX centerY selectedPinNumber leftPins True
              @ drawSidePins centerX centerY selectedPinNumber rightPins False)"

text \<open>
  \<^verbatim>\<open>Array.prototype.indexOf\<close>: the first position of the element, \<open>-1\<close> when absent.
\<close>

fun indexOf :: "'a list \<Rightarrow> 'a \<Rightarrow> int" where
  "indexOf [] x = - 1"
| "indexOf (y # ys) x =
     (if y = x then 0 else (let r = indexOf ys x in if r < 0 then - 1 else r + 1))"

text \<open>
  The click handler of the symbol canvas (lines 105 to 134), at the canvas-space pointer
  position \<open>(x, y)\<close>. \<^verbatim>\<open>includes\<close> and \<^verbatim>\<open>indexOf\<close> compare object references: a
  pin object is modelled by its position in the \<^verbatim>\<open>pins\<close> array paired with its content,
  so that two pins with equal fields remain different objects. \<open>canvas.height\<close> is
  the height the drawing effect has set for the same pin list. The result is the list
  of arguments with which \<^verbatim>\<open>onPinSelect\<close> is called, in call order.

  The handler compares \<^verbatim>\<open>Math.sqrt(Math.pow(x - px, 2) + Math.pow(y - py, 2))\<close> with 20.
  That expression is evaluated in double arithmetic and each of its operations rounds;
  \<open>distance x px y py\<close> stands for the value so computed. The rounding is not fixed
  here: the handler is modelled for an arbitrary function \<open>distance\<close>. The coordinates
  \<open>px\<close> and \<open>py\<close> of a target are integers or halves of integers, which double
  arithmetic computes without rounding.
\<close>

definition schematicClickBy ::
  "(real \<Rightarrow> real \<Rightarrow> real \<Rightarrow> real \<Rightarrow> real) \<Rightarrow> PinInfo list \<Rightarrow> real \<Rightarrow> real \<Rightarrow> string list" where
  "schematicClickBy distance pins x y =
     (let (leftPins, rightPins) = layoutSides snd (enumerate 0 pins);
          centerX = symbolCanvasWidth / 2;
          centerY = symbolCanvasHeight pins / 2
      in concat (map (\<lambda>pin.
           let sidePins = (if pin \<in> set leftPins then leftPins else rightPins);
               idx = indexOf sidePins pin;
               isLeft = (pin \<in> set leftPins);
               py = centerY - (real (length sidePins) - 1) * pinSpacing / 2 + real_of_int idx * pinSpacing;
               px = (if isLeft then centerX - boxWidth / 2 - 15 else centerX + boxWidth / 2 + 15);
               dist = distance x px y py
           in if dist < 20 then [pin_number (snd pin)] else [])
         (leftPins @ rightPins)))"

text \<open>
  The distance without rounding, and the handler under it. The two give the same test
  unless rounding moves the computed value across 20. In the examples below the
  coordinates are integers or halves of integers and the distance is either a whole
  number, which the double arithmetic computes exactly, or far from 20.
\<close>

definition exactDist :: "real \<Rightarrow> real \<Rightarrow> real \<Rightarrow> real \<Rightarrow> real" where
  "exactDist x px y py = sqrt ((x - px)\<^sup>2 + (y - py)\<^sup>2)"

definition schematicClick :: "PinInfo list \<Rightarrow> real \<Rightarrow> real \<Rightarrow> string list" where
  "schematicClick pins x y = schematicClickBy exactDist pins x y"

text \<open>
  \<^verbatim>\<open>onPinSelect\<close> is \<^verbatim>\<open>setSelectedPinNumber\<close>: each call overwrites the state, the last
  call of one event wins.
\<close>

definition applySelects :: "string list \<Rightarrow> string option \<Rightarrow> string option" where
  "applySelects calls selectedPinNumber = fold (\<lambda>num s. Some num) calls selectedPinNumber"

section \<open>JavaScript numbers\<close>

text \<open>
  A number of the program is an IEEE double. The model keeps \<open>NaN\<close> and the two infinities
  and represents every finite double by the rational it denotes: rounding, overflow and
  the sign of zero are not modelled. The arithmetic and the comparisons follow the IEEE
  rules for \<open>NaN\<close> and the infinities; a division by zero takes the zero as positive.
\<close>

datatype jsnum = NaN | NegInf | Fin rat | PosInf

instantiation jsnum :: "{uminus, plus, minus, times, inverse, ord}"
begin

fun uminus_jsnum :: "jsnum \<Rightarrow> jsnum" where
  "uminus_jsnum NaN = NaN"
| "uminus_jsnum NegInf = PosInf"
| "uminus_jsnum (Fin a) = Fin (- a)"
| "uminus_jsnum PosInf = NegInf"

fun plus_jsnum :: "jsnum \<Rightarrow> jsnum \<Rightarrow> jsnum" where
  "plus_jsnum NaN b = NaN"
| "plus_jsnum a NaN = NaN"
| "plus_jsnum (Fin a) (Fin b) = Fin (a + b)"
| "plus_jsnum PosInf NegInf = NaN"
| "plus_jsnum NegInf PosInf = NaN"
| "plus_jsnum PosInf b = PosInf"
| "plus_jsnum a PosInf = PosInf"
| "plus_jsnum NegInf b = NegInf"
| "plus_jsnum a NegInf = NegInf"

definition minus_jsnum :: "jsnum \<Rightarrow> jsnum \<Rightarrow> jsnum" where
  "minus_jsnum a b = a + (- b)"

fun times_jsnum :: "jsnum \<Rightarrow> jsnum \<Rightarrow> jsnum" where
  "times_jsnum NaN b = NaN"
| "times_jsnum a NaN = NaN"
| "times_jsnum (Fin a) (Fin b) = Fin (a * b)"
| "times_jsnum (Fin a) PosInf = (if a = 0 then NaN else if 0 < a then PosInf else NegInf)"
| "times_jsnum (Fin a) NegInf = (if a = 0 then NaN else if 0 < a then NegInf else PosInf)"
| "times_jsnum PosInf (Fin b) = (if b = 0 then NaN else if 0 < b then PosInf else NegInf)"
| "times_jsnum NegInf (Fin b) = (if b = 0 then NaN else if 0 < b then NegInf else PosInf)"
| "times_jsnum PosInf PosInf = PosInf"
| "times_jsnum NegInf NegInf = PosInf"
| "times_jsnum PosInf NegInf = NegInf"
| "times_jsnum NegInf PosInf = NegInf"

fun divide_jsnum :: "jsnum \<Rightarrow> jsnum \<Rightarrow> jsnum" where
  "divide_jsnum NaN b = NaN"
| "divide_jsnum a NaN = NaN"
| "divide_jsnum (Fin a) (Fin b) =
     (if b = 0 then (if a = 0 then NaN else if 0 < a then PosInf else NegInf) else Fin (a / b))"
| "divide_jsnum (Fin a) b = Fin 0"
| "divide_jsnum PosInf (Fin b) = (if 0 \<le> b then PosInf else NegInf)"
| "divide_jsnum NegInf (Fin b) = (if 0 \<le> b then NegInf else PosInf)"
| "divide_jsnum a b = NaN"

definition inverse_jsnum :: "jsnum \<Rightarrow> jsnum" where
  "inverse_jsnum a = divide (Fin 1) a"

fun less_eq_jsnum :: "jsnum \<Rightarrow> jsnum \<Rightarrow> bool" where
  "less_eq_jsnum NaN b = False"
| "less_eq_jsnum a NaN = False"
| "less_eq_jsnum (Fin a) (Fin b) = (a \<le> b)"
| "less_eq_jsnum NegInf b = True"
| "less_eq_jsnum a PosInf = True"
| "less_eq_jsnum a b = False"

fun less_jsnum :: "jsnum \<Rightarrow> jsnum \<Rightarrow> bool" where
  "less_jsnum NaN b = False"
| "less_jsnum a NaN = False"
| "less_jsnum (Fin a) (Fin b) = (a < b)"
| "less_jsnum PosInf b = False"
| "less_jsnum a NegInf = False"
| "less_jsnum a b = True"

instance ..

end

fun Math_min :: "jsnum list \<Rightarrow> jsnum" where
  "Math_min [] = PosInf"
| "Math_min (a # as) =
     (let m = Math_min as in if a = NaN \<or> m = NaN then NaN else if a \<le> m then a else m)"

fun Math_max :: "jsnum list \<Rightarrow> jsnum" where
  "Math_max [] = NegInf"
| "Math_max (a # as) =
     (let m = Math_max as in if a = NaN \<or> m = NaN then NaN else if m \<le> a then a else m)"

text \<open>\<^verbatim>\<open>Math.min(...as)\<close> and \<^verbatim>\<open>Math.max(...as)\<close>: \<open>NaN\<close> as soon as one argument is.\<close>

section \<open>Character classes and \<^verbatim>\<open>parseFloat\<close>\<close>

text \<open>
  A \<open>char\<close> stands for a UTF-16 code unit below 256. \<open>is_space\<close> is \<^verbatim>\<open>\\s\<close> on these
  code units, \<open>is_word\<close> is \<^verbatim>\<open>[\\w\\d]\<close>, \<open>is_any\<close> is \<^verbatim>\<open>[\\s\\S]\<close> and \<open>is_num\<close> is
  \<^verbatim>\<open>[-0-9.]\<close>.
\<close>

definition is_space :: "char \<Rightarrow> bool" where
  "is_space c = (of_char c \<in> set [9, 10, 11, 12, 13, 32, 160 :: nat])"

definition is_digit :: "char \<Rightarrow> bool" where
  "is_digit c = (48 \<le> (of_char c :: nat) \<and> (of_char c :: nat) \<le> 57)"

definition is_word :: "char \<Rightarrow> bool" where
  "is_word c = (is_digit c \<or> (65 \<le> (of_char c :: nat) \<and> (of_char c :: nat) \<le> 90)
                 \<or> (97 \<le> (of_char c :: nat) \<and> (of_char c :: nat) \<le> 122) \<or> c = CHR ''_'')"

definition is_any :: "char \<Rightarrow> bool" where
  "is_any c = True"

definition is_num :: "char \<Rightarrow> bool" where
  "is_num c = (c = CHR ''-'' \<or> is_digit c \<or> c = CHR ''.'')"

text \<open>
  \<^verbatim>\<open>parseFloat\<close>: leading white space is skipped, then the longest prefix that is a
  decimal literal (sign, digits, fraction, exponent) or \<^verbatim>\<open>Infinity\<close> is read; \<open>NaN\<close> when
  there is none.
\<close>

definition digitVal :: "char \<Rightarrow> nat" where
  "digitVal c = of_char c - 48"

definition digitsVal :: "string \<Rightarrow> nat" where
  "digitsVal ds = foldl (\<lambda>a c. 10 * a + digitVal c) 0 ds"

definition parseExponent :: "string \<Rightarrow> int" where
  "parseExponent s =
     (case s of
        [] \<Rightarrow> 0
      | e # r \<Rightarrow>
          if e = CHR ''e'' \<or> e = CHR ''E'' then
            (let (neg, ds) = (case r of [] \<Rightarrow> (False, [])
                              | c # r' \<Rightarrow> if c = CHR ''-'' then (True, r')
                                         else if c = CHR ''+'' then (False, r') else (False, r));
                 n = int (digitsVal (takeWhile is_digit ds))
             in if neg then - n else n)
          else 0)"

definition parseFloat :: "string \<Rightarrow> jsnum" where
  "parseFloat str =
     (let s1 = dropWhile is_space str;
          (neg, s2) = (case s1 of [] \<Rightarrow> (False, [])
                       | c # r \<Rightarrow> if c = CHR ''-'' then (True, r)
                                  else if c = CHR ''+'' then (False, r) else (False, s1))
      in if prefix ''Infinity'' s2 then (if neg then NegInf else PosInf)
         else
           (let ip = takeWhile is_digit s2;
                r1 = dropWhile is_digit s2;
                (fp, r2) = (case r1 of [] \<Rightarrow> ([], [])
                            | c # r \<Rightarrow> if c = CHR ''.'' then (takeWhile is_digit r, dropWhile is_digit r)
                                       else ([], r1))
            in if ip = [] \<and> fp = [] then NaN
               else
                 (let mant = of_nat (digitsVal ip) + of_nat (digitsVal fp) / 10 ^ length fp;
                      ex = parseExponent r2;
                      v = (if 0 \<le> ex then mant * 10 ^ nat ex else mant / 10 ^ nat (- ex))
                  in Fin (if neg then - v else v))))"

section \<open>Regular expressions\<close>

text \<open>
  The two patterns of \<^verbatim>\<open>Footprint2D\<close> use literal characters, greedy \<^verbatim>\<open>C+\<close> on a character
  class, the lazy \<^verbatim>\<open>[\\s\\S]*?\<close>, greedy optional groups and capture groups that are not
  nested. A pattern is the list of its items; \<open>Open\<close> and \<open>Close\<close> delimit a capture
  group. \<open>rmatch\<close> is the backtracking matcher at one start position: alternatives are
  tried in the priority order of the engine (greedy: longest first, lazy: shortest
  first) and the first complete match wins. It returns the captured groups and the
  text after the match. \<open>cur\<close> accumulates the text of the group that is open.
\<close>

datatype rx =
    Chr char
  | Plus "char \<Rightarrow> bool"
  | Star "char \<Rightarrow> bool"
  | StarLazy "char \<Rightarrow> bool"
  | Opt "rx list"
  | Open
  | Close

fun weight :: "rx \<Rightarrow> nat" where
  "weight (Chr c) = 1"
| "weight (Plus C) = 2"
| "weight (Star C) = 1"
| "weight (StarLazy C) = 1"
| "weight (Opt g) = Suc (sum_list (map weight g))"
| "weight Open = 1"
| "weight Close = 1"

definition push :: "char \<Rightarrow> string option \<Rightarrow> string option" where
  "push c cur = map_option (\<lambda>a. a @ [c]) cur"

function rmatch :: "rx list \<Rightarrow> string \<Rightarrow> string list \<Rightarrow> string option \<Rightarrow> (string list \<times> string) option" where
  "rmatch [] s caps cur = Some (caps, s)"
| "rmatch (Chr c # k) s caps cur =
     (case s of [] \<Rightarrow> None
      | x # xs \<Rightarrow> if x = c then rmatch k xs caps (push x cur) else None)"
| "rmatch (Plus C # k) s caps cur =
     (case s of [] \<Rightarrow> None
      | x # xs \<Rightarrow> if C x then rmatch (Star C # k) xs caps (push x cur) else None)"
| "rmatch (Star C # k) s caps cur =
     (case s of [] \<Rightarrow> rmatch k s caps cur
      | x # xs \<Rightarrow>
          if C x then
            (case rmatch (Star C # k) xs caps (push x cur) of
               Some r \<Rightarrow> Some r
             | None \<Rightarrow> rmatch k s caps cur)
          else rmatch k s caps cur)"
| "rmatch (StarLazy C # k) s caps cur =
     (case rmatch k s caps cur of
        Some r \<Rightarrow> Some r
      | None \<Rightarrow>
          (case s of [] \<Rightarrow> None
           | x # xs \<Rightarrow> if C x then rmatch (StarLazy C # k) xs caps (push x cur) else None))"
| "rmatch (Opt g # k) s caps cur =
     (case rmatch (g @ k) s caps cur of
        Some r \<Rightarrow> Some r
      | None \<Rightarrow> rmatch k s caps cur)"
| "rmatch (Open # k) s caps cur = rmatch k s caps (Some [])"
| "rmatch (Close # k) s caps cur =
     rmatch k s (caps @ [case cur of Some a \<Rightarrow> a | None \<Rightarrow> []]) None"
  by pat_completeness auto
termination
  by (relation "measures [\<lambda>(r, s, caps, cur). sum_list (map weight r), \<lambda>(r, s, caps, cur). length s]")
     auto

text \<open>Lines 156 and 170: the pad pattern and the outline pattern.\<close>

definition lit :: "string \<Rightarrow> rx list" where
  "lit s = map Chr s"

definition padRegex :: "rx list" where
  "padRegex =
     lit ''(pad'' @ [Plus is_space, Open, Opt [Chr CHR 0x22], Plus is_word, Opt [Chr CHR 0x22], Close,
       StarLazy is_any]
     @ lit ''(at'' @ [Plus is_space, Open, Plus is_num, Close, Plus is_space, Open, Plus is_num, Close,
       Opt [Plus is_space, Plus is_num]]
     @ lit '')'' @ [StarLazy is_any]
     @ lit ''(size'' @ [Plus is_space, Open, Plus is_num, Close, Plus is_space, Open, Plus is_num, Close]
     @ lit '')''"

definition lineRegex :: "rx list" where
  "lineRegex =
     lit ''(fp_line'' @ [Plus is_space]
     @ lit ''(start'' @ [Plus is_space, Open, Plus is_num, Close, Plus is_space, Open, Plus is_num, Close]
     @ lit '')'' @ [Plus is_space]
     @ lit ''(end'' @ [Plus is_space, Open, Plus is_num, Close, Plus is_space, Open, Plus is_num, Close]
     @ lit '')''"

text \<open>
  \<^verbatim>\<open>RegExp.prototype.exec\<close> with the \<^verbatim>\<open>g\<close> flag, on the text from \<^verbatim>\<open>lastIndex\<close> on: the first
  start position with a match; the text after the match is where \<^verbatim>\<open>lastIndex\<close> then points.
\<close>

fun exec :: "rx list \<Rightarrow> string \<Rightarrow> (string list \<times> string) option" where
  "exec re [] = rmatch re [] [] None"
| "exec re (c # cs) =
     (case rmatch re (c # cs) [] None of
        Some r \<Rightarrow> Some r
      | None \<Rightarrow> exec re cs)"

text \<open>
  The loops \<^verbatim>\<open>while ((match = re.exec(kicadMod)) !== null)\<close>. A match that consumes no
  text would leave \<^verbatim>\<open>lastIndex\<close> in place and the loop would never end: that is the
  result \<open>None\<close>.
\<close>

function execLoop :: "rx list \<Rightarrow> string \<Rightarrow> string list list option" where
  "execLoop re s =
     (case exec re s of
        None \<Rightarrow> Some []
      | Some (m, rest) \<Rightarrow>
          if length rest < length s then map_option ((#) m) (execLoop re rest) else None)"
  by pat_completeness auto
termination
  by (relation "measure (\<lambda>(re, s). length s)") auto

section \<open>Footprint2D: parsing, view transform, drawing, click\<close>

text \<open>
  The fields \<^verbatim>\<open>num, x, y, width, height\<close> of a pad and \<^verbatim>\<open>x1, y1, x2, y2\<close> of a line carry a
  prefix here. \<open>padOfMatch\<close> is the body of the first loop (lines 160 to 166): a group
  that did not take part in the match would make \<^verbatim>\<open>match[1].replace\<close> throw, which is
  \<open>None\<close>.
\<close>

record pad =
  pad_num :: string
  pad_x :: jsnum
  pad_y :: jsnum
  pad_width :: jsnum
  pad_height :: jsnum

record outline =
  line_x1 :: jsnum
  line_y1 :: jsnum
  line_x2 :: jsnum
  line_y2 :: jsnum

fun padOfMatch :: "string list \<Rightarrow> pad option" where
  "padOfMatch [m1, m2, m3, m4, m5] =
     Some \<lparr>pad_num = filter (\<lambda>c. c \<noteq> CHR 0x22) m1, pad_x = parseFloat m2, pad_y = parseFloat m3,
           pad_width = parseFloat m4, pad_height = parseFloat m5\<rparr>"
| "padOfMatch ms = None"

fun lineOfMatch :: "string list \<Rightarrow> outline option" where
  "lineOfMatch [m1, m2, m3, m4] =
     Some \<lparr>line_x1 = parseFloat m1, line_y1 = parseFloat m2,
           line_x2 = parseFloat m3, line_y2 = parseFloat m4\<rparr>"
| "lineOfMatch ms = None"

definition parsePads :: "string \<Rightarrow> pad list option" where
  "parsePads kicadMod =
     (case execLoop padRegex kicadMod of None \<Rightarrow> None | Some ms \<Rightarrow> those (map padOfMatch ms))"

definition parseLines :: "string \<Rightarrow> outline list option" where
  "parseLines kicadMod =
     (case execLoop lineRegex kicadMod of None \<Rightarrow> None | Some ms \<Rightarrow> those (map lineOfMatch ms))"

text \<open>
  Lines 176 to 199. The canvas is 400 by 400 (line 246); \<open>viewTransform\<close> takes its size
  as arguments.
\<close>

record transform =
  t_centerX :: jsnum
  t_centerY :: jsnum
  t_scale :: jsnum

definition bounds :: "pad list \<Rightarrow> outline list \<Rightarrow> jsnum \<times> jsnum \<times> jsnum \<times> jsnum" where
  "bounds pads lines =
     (if length pads > 0 \<or> length lines > 0 then
        (let coordsX = map (\<lambda>p. pad_x p - pad_width p / Fin 2) pads
                       @ map (\<lambda>p. pad_x p + pad_width p / Fin 2) pads
                       @ map line_x1 lines @ map line_x2 lines;
             coordsY = map (\<lambda>p. pad_y p - pad_height p / Fin 2) pads
                       @ map (\<lambda>p. pad_y p + pad_height p / Fin 2) pads
                       @ map line_y1 lines @ map line_y2 lines
         in (Math_min coordsX - Fin 1.5, Math_max coordsX + Fin 1.5,
             Math_min coordsY - Fin 1.5, Math_max coordsY + Fin 1.5))
      else (Fin (- 5), Fin 5, Fin (- 5), Fin 5))"

definition viewTransform :: "rat \<Rightarrow> rat \<Rightarrow> pad list \<Rightarrow> outline list \<Rightarrow> transform" where
  "viewTransform canvas_width canvas_height pads lines =
     (let (minX, maxX, minY, maxY) = bounds pads lines;
          scale = Math_min [(Fin canvas_width - Fin 40) / (maxX - minX),
                            (Fin canvas_height - Fin 40) / (maxY - minY)];
          centerX = Fin canvas_width / Fin 2 - ((minX + maxX) / Fin 2) * scale;
          centerY = Fin canvas_height / Fin 2 - ((minY + maxY) / Fin 2) * scale
      in \<lparr>t_centerX = centerX, t_centerY = centerY, t_scale = scale\<rparr>)"

text \<open>
  Lines 207 to 238: every line is stroked and every pad of the list is filled, at the
  screen rectangle \<open>(px, py, pw, ph)\<close>. The scene is the list of these requests. What the
  canvas does with a request is not modelled: where \<^verbatim>\<open>roundRect\<close> exists it is called with
  the radius \<^verbatim>\<open>Math.min(pw, ph) * 0.2\<close>, and a canvas rejects a negative radius, that is
  a pad of negative width or height, with a \<^verbatim>\<open>RangeError\<close>.
\<close>

datatype draw_op =
    StrokeLine jsnum jsnum jsnum jsnum
  | FillPad string jsnum jsnum jsnum jsnum bool

definition drawFootprint :: "transform \<Rightarrow> pad list \<Rightarrow> outline list \<Rightarrow> string option \<Rightarrow> draw_op list" where
  "drawFootprint t pads lines selectedPinNumber =
     map (\<lambda>line. StrokeLine (t_centerX t + line_x1 line * t_scale t) (t_centerY t + line_y1 line * t_scale t)
                            (t_centerX t + line_x2 line * t_scale t) (t_centerY t + line_y2 line * t_scale t))
         lines
     @ map (\<lambda>pad.
          let isSelected = (selectedPinNumber = Some (pad_num pad));
              px = t_centerX t + pad_x pad * t_scale t - (pad_width pad * t_scale t) / Fin 2;
              py = t_centerY t + pad_y pad * t_scale t - (pad_height pad * t_scale t) / Fin 2;
              pw = pad_width pad * t_scale t;
              ph = pad_height pad * t_scale t
          in FillPad (pad_num pad) px py pw ph isSelected)
         pads"

text \<open>
  The drawing effect as a whole (lines 150 to 239): \<open>None\<close> when one of the loops does not
  end or throws. It leaves the pads and the transform in two refs for the click handler.
\<close>

record footprint_view =
  padsRef :: "pad list"
  transformRef :: transform
  scene :: "draw_op list"

definition footprintCanvasWidth :: rat where "footprintCanvasWidth = 400"
definition footprintCanvasHeight :: rat where "footprintCanvasHeight = 400"

definition footprintEffect :: "string \<Rightarrow> string option \<Rightarrow> footprint_view option" where
  "footprintEffect kicadMod selectedPinNumber =
     (case parsePads kicadMod of
        None \<Rightarrow> None
      | Some pads \<Rightarrow>
          (case parseLines kicadMod of
             None \<Rightarrow> None
           | Some lines \<Rightarrow>
               (let t = viewTransform footprintCanvasWidth footprintCanvasHeight pads lines
                in Some \<lparr>padsRef = pads, transformRef = t,
                         scene = drawFootprint t pads lines selectedPinNumber\<rparr>)))"

text \<open>The click handler (lines 246 to 261), at the canvas-space position \<open>(x, y)\<close>.\<close>

definition padContains :: "transform \<Rightarrow> jsnum \<Rightarrow> jsnum \<Rightarrow> pad \<Rightarrow> bool" where
  "padContains t x y pad =
     (let px = t_centerX t + pad_x pad * t_scale t - (pad_width pad * t_scale t) / Fin 2;
          py = t_centerY t + pad_y pad * t_scale t - (pad_height pad * t_scale t) / Fin 2;
          pw = pad_width pad * t_scale t;
          ph = pad_height pad * t_scale t
      in px \<le> x \<and> x \<le> px + pw \<and> py \<le> y \<and> y \<le> py + ph)"

definition footprintClick :: "footprint_view \<Rightarrow> rat \<Rightarrow> rat \<Rightarrow> string list" where
  "footprintClick v x y =
     (case find (padContains (transformRef v) (Fin x) (Fin y)) (padsRef v) of
        None \<Rightarrow> []
      | Some clickedPad \<Rightarrow> [pad_num clickedPad])"

section \<open>ComponentModel: the leads of the 3D view\<close>

text \<open>
  \<^verbatim>\<open>v || d\<close> on a number: \<open>d\<close> when \<open>v\<close> is absent or zero. \<open>toString\<close> is
  \<^verbatim>\<open>Number.prototype.toString\<close> on a natural number. The loop of lines 288 to 311 runs for
  \<open>i = 0, 1, \<dots>\<close> while \<open>i < pinCount\<close>.
\<close>

definition orDefault :: "rat option \<Rightarrow> rat \<Rightarrow> rat" where
  "orDefault v d = (case v of None \<Rightarrow> d | Some a \<Rightarrow> if a = 0 then d else a)"

fun toString :: "nat \<Rightarrow> string" where
  "toString n =
     (if n < 10 then [''0123456789'' ! n]
      else toString (n div 10) @ [''0123456789'' ! (n mod 10)])"

declare toString.simps [simp del]

record lead3d =
  lead_key :: nat
  lead_side :: rat
  lead_position_x :: rat
  lead_position_z :: rat
  lead_pinNum :: string
  lead_isSelected :: bool

definition sc :: rat where "sc = 0.5"

definition modelPins :: "FootprintData \<Rightarrow> string option \<Rightarrow> lead3d list" where
  "modelPins data selectedPinNumber =
     (let w = orDefault (fd_bodyWidth_nominal data) 6;
          sw = w * sc;
          pinCount = orDefault (fd_pinCount data) 8;
          perSide = of_int \<lceil>pinCount / 2\<rceil>;
          pitch = orDefault (fd_pitch_nominal data) 1.27 * sc
      in map (\<lambda>i.
           let isLeftSide = (of_nat i < perSide);
               side = (if isLeftSide then - 1 else 1);
               index = (if isLeftSide then of_nat i else pinCount - 1 - of_nat i);
               offset = (index - (perSide - 1) / 2) * pitch;
               pinNum = toString (i + 1);
               isSelected = (selectedPinNumber = Some pinNum)
           in \<lparr>lead_key = i, lead_side = side, lead_position_x = side * (sw / 2 + 0.3 * sc),
               lead_position_z = offset, lead_pinNum = pinNum, lead_isSelected = isSelected\<rparr>)
         [0..<nat \<lceil>pinCount\<rceil>])"

section \<open>VisualPreview: the selection state\<close>

text \<open>
  The pointer events that reach the three renderers, and the dismiss button of the info
  panel. \<open>LeadClick i\<close> is a click that the 3D surface delivers to the lead group with
  key \<open>i\<close>. \<open>handleEvent\<close> gives \<^verbatim>\<open>selectedPinNumber\<close> after the event.
\<close>

datatype event =
    SymbolClick real real
  | FootprintClick rat rat
  | LeadClick nat
  | Dismiss

definition handleEvent :: "FootprintData \<Rightarrow> string option \<Rightarrow> event \<Rightarrow> string option" where
  "handleEvent data selectedPinNumber ev =
     (case ev of
        SymbolClick x y \<Rightarrow>
          applySelects
            (schematicClick (case fd_pins data of None \<Rightarrow> [] | Some ps \<Rightarrow> ps) x y)
            selectedPinNumber
      | FootprintClick x y \<Rightarrow>
          (case footprintEffect (fd_kicadMod data) selectedPinNumber of
             None \<Rightarrow> selectedPinNumber
           | Some v \<Rightarrow> applySelects (footprintClick v x y) selectedPinNumber)
      | LeadClick i \<Rightarrow>
          applySelects
            (map lead_pinNum (filter (\<lambda>l. lead_key l = i) (modelPins data selectedPinNumber)))
            selectedPinNumber
      | Dismiss \<Rightarrow> None)"

text \<open>
  \<^verbatim>\<open>App.tsx\<close> renders \<^verbatim>\<open><VisualPreview data={result} />\<close> without a key, when \<^verbatim>\<open>result\<close> is
  set and the view mode is \<^verbatim>\<open>'visual'\<close>. \<open>app_preview\<close> is \<open>None\<close> while the component is not
  mounted and \<open>Some s\<close> while it is mounted with \<^verbatim>\<open>selectedPinNumber = s\<close>. A component that
  stays rendered at the same place keeps its state across renders, whatever its props; a
  component that is mounted starts from \<^verbatim>\<open>useState(null)\<close>.
\<close>

datatype view_mode = Visual | Validation | Code

record app =
  app_result :: "FootprintData option"
  app_viewMode :: view_mode
  app_preview :: "string option option"

datatype app_event =
    FileChange
  | ProcessDone FootprintData
  | SetViewMode view_mode
  | Rerender
  | Preview event

definition reconcile :: "FootprintData option \<Rightarrow> view_mode \<Rightarrow> string option option \<Rightarrow> string option option" where
  "reconcile res mode old =
     (if res \<noteq> None \<and> mode = Visual
      then (case old of None \<Rightarrow> Some None | Some s \<Rightarrow> Some s)
      else None)"

definition appStep :: "app \<Rightarrow> app_event \<Rightarrow> app" where
  "appStep st ev =
     (case ev of
        FileChange \<Rightarrow>
          \<lparr>app_result = None, app_viewMode = app_viewMode st, app_preview = reconcile None (app_viewMode st) (app_preview st)\<rparr>
      | ProcessDone d \<Rightarrow>
          \<lparr>app_result = Some d, app_viewMode = Visual, app_preview = reconcile (Some d) Visual (app_preview st)\<rparr>
      | SetViewMode m \<Rightarrow>
          \<lparr>app_result = app_result st, app_viewMode = m, app_preview = reconcile (app_result st) m (app_preview st)\<rparr>
      | Rerender \<Rightarrow>
          \<lparr>app_result = app_result st, app_viewMode = app_viewMode st,
           app_preview = reconcile (app_result st) (app_viewMode st) (app_preview st)\<rparr>
      | Preview e \<Rightarrow>
          (case (app_result st, app_preview st) of
             (Some d, Some s) \<Rightarrow> st\<lparr>app_preview := Some (handleEvent d s e)\<rparr>
           | _ \<Rightarrow> st))"

section \<open>Notions used to state the properties\<close>

text \<open>
  The distance test of the click handler, taken at the midpoint of a drawn lead, for the
  distance as the handler computes it.
\<close>

definition nearLeadBy :: "(real \<Rightarrow> real \<Rightarrow> real \<Rightarrow> real \<Rightarrow> real) \<Rightarrow> real \<Rightarrow> real \<Rightarrow> lead \<Rightarrow> bool" where
  "nearLeadBy distance x y l = (distance x ((edge_x l + outer_x l) / 2) y (lead_y l) < 20)"

text \<open>Example pins.\<close>

definition in_pin :: "string \<Rightarrow> PinInfo" where
  "in_pin n = \<lparr>pin_number = n, pin_name = ''A'', electrical_type = Input, description = ''''\<rparr>"
definition out_pin :: "string \<Rightarrow> PinInfo" where
  "out_pin n = \<lparr>pin_number = n, pin_name = ''Q'', electrical_type = Output, description = ''''\<rparr>"

text \<open>Two example bundles.\<close>

definition data1 :: FootprintData where
  "data1 = \<lparr>fd_pinCount = Some 0, fd_bodyWidth_nominal = None, fd_bodyLength_nominal = None,
     fd_height_nominal = None, fd_pitch_nominal = None,
     fd_kicadMod = ''(pad 1 smd rect (at 0 0) (size 1 1))'', fd_component_name = None,
     fd_pins = Some [in_pin ''A1'', out_pin ''B7'']\<rparr>"

definition data2 :: FootprintData where
  "data2 = \<lparr>fd_pinCount = Some 2, fd_bodyWidth_nominal = None, fd_bodyLength_nominal = None,
     fd_height_nominal = None, fd_pitch_nominal = None,
     fd_kicadMod = '''', fd_component_name = None, fd_pins = None\<rparr>"

text \<open>
  The preview is mounted exactly when \<^verbatim>\<open>App.tsx\<close> renders it.
\<close>

definition mounted_consistent :: "app \<Rightarrow> bool" where
  "mounted_consistent st =
     ((app_preview st \<noteq> None) = (app_result st \<noteq> None \<and> app_viewMode st = Visual))"

text \<open>
  The number of capture groups of a pattern, and the patterns whose optional parts hold
  no capture group: in such a pattern every group takes part in every match.
\<close>

fun closes :: "rx \<Rightarrow> nat" where
  "closes Close = 1"
| "closes (Opt g) = sum_list (map closes g)"
| "closes r = 0"

fun plainOpt :: "rx \<Rightarrow> bool" where
  "plainOpt (Opt g) = list_all (\<lambda>i. closes i = 0 \<and> plainOpt i) g"
| "plainOpt r = True"










text \<open>
  A footprint text as the parsing property sees it: pad records and line records, each
  followed by other text. \<open>opensNowhere op t rest\<close> says that the text \<open>op\<close> begins at no
  position of \<open>t\<close> in the string \<open>t @ rest\<close>. White space is a non-empty run of \<^verbatim>\<open>\\s\<close>, a
  numeric field a non-empty text of the characters \<^verbatim>\<open>-0-9.\<close>.
\<close>

fun opensNowhere :: "string \<Rightarrow> string \<Rightarrow> string \<Rightarrow> bool" where
  "opensNowhere op [] rest = True"
| "opensNowhere op (c # cs) rest = (\<not> prefix op (c # cs @ rest) \<and> opensNowhere op cs rest)"

definition isWs :: "string \<Rightarrow> bool" where
  "isWs s = (s \<noteq> [] \<and> list_all is_space s)"

definition isNumText :: "string \<Rightarrow> bool" where
  "isNumText s = (s \<noteq> [] \<and> list_all is_num s)"

text \<open>
  The parts of a pad record \<^verbatim>\<open>(pad 1 smd rect (at 0 0 90) (size 1 1)\<close> and of a line record
  \<^verbatim>\<open>(fp_line (start 0 0) (end 1 1)\<close>, as they are written: the white space, the identifier
  and whether it stands in quotes, the text between the identifier and the position, the
  numeric fields, the rotation with its white space when there is one, and the text
  between the position and the size. A record ends with the \<^verbatim>\<open>)\<close> that closes the size,
  or the end point.
\<close>

record pad_text =
  pt_sp1 :: string
  pt_quoted :: bool
  pt_id :: string
  pt_mid1 :: string
  pt_sp2 :: string
  pt_x :: string
  pt_sp3 :: string
  pt_y :: string
  pt_rot :: "(string \<times> string) option"
  pt_mid2 :: string
  pt_sp4 :: string
  pt_w :: string
  pt_sp5 :: string
  pt_h :: string

record line_text =
  lt_sp1 :: string
  lt_sp2 :: string
  lt_x1 :: string
  lt_sp3 :: string
  lt_y1 :: string
  lt_sp4 :: string
  lt_sp5 :: string
  lt_x2 :: string
  lt_sp6 :: string
  lt_y2 :: string

definition idText :: "pad_text \<Rightarrow> string" where
  "idText r = (if pt_quoted r then [CHR 0x22] @ pt_id r @ [CHR 0x22] else pt_id r)"

definition rotText :: "pad_text \<Rightarrow> string" where
  "rotText r = (case pt_rot r of None \<Rightarrow> [] | Some (sp, t) \<Rightarrow> sp @ t)"

definition renderPad :: "pad_text \<Rightarrow> string" where
  "renderPad r =
     ''(pad'' @ pt_sp1 r @ idText r @ pt_mid1 r
     @ ''(at'' @ pt_sp2 r @ pt_x r @ pt_sp3 r @ pt_y r @ rotText r @ '')'' @ pt_mid2 r
     @ ''(size'' @ pt_sp4 r @ pt_w r @ pt_sp5 r @ pt_h r @ '')''"

definition renderLine :: "line_text \<Rightarrow> string" where
  "renderLine r =
     ''(fp_line'' @ lt_sp1 r @ ''(start'' @ lt_sp2 r @ lt_x1 r @ lt_sp3 r @ lt_y1 r @ '')''
     @ lt_sp4 r @ ''(end'' @ lt_sp5 r @ lt_x2 r @ lt_sp6 r @ lt_y2 r @ '')''"

text \<open>
  A pad record is well formed when its identifier is a non-empty text of word characters,
  its fields are numeric fields, the two texts in between contain no \<^verbatim>\<open>(\<close>, and an
  identifier without quotes is followed by a character that is neither a word character
  nor a quote. A line record is well formed when its fields are numeric fields.
\<close>

definition wfPadText :: "pad_text \<Rightarrow> bool" where
  "wfPadText r =
     (isWs (pt_sp1 r) \<and> isWs (pt_sp2 r) \<and> isWs (pt_sp3 r) \<and> isWs (pt_sp4 r) \<and> isWs (pt_sp5 r)
      \<and> pt_id r \<noteq> [] \<and> list_all is_word (pt_id r)
      \<and> isNumText (pt_x r) \<and> isNumText (pt_y r) \<and> isNumText (pt_w r) \<and> isNumText (pt_h r)
      \<and> (case pt_rot r of None \<Rightarrow> True | Some (sp, t) \<Rightarrow> isWs sp \<and> isNumText t)
      \<and> CHR ''('' \<notin> set (pt_mid1 r) \<and> CHR ''('' \<notin> set (pt_mid2 r)
      \<and> (pt_quoted r \<or> pt_mid1 r = []
           \<or> (\<not> is_word (hd (pt_mid1 r)) \<and> hd (pt_mid1 r) \<noteq> CHR 0x22)))"

definition wfLineText :: "line_text \<Rightarrow> bool" where
  "wfLineText r =
     (isWs (lt_sp1 r) \<and> isWs (lt_sp2 r) \<and> isWs (lt_sp3 r) \<and> isWs (lt_sp4 r) \<and> isWs (lt_sp5 r)
      \<and> isWs (lt_sp6 r)
      \<and> isNumText (lt_x1 r) \<and> isNumText (lt_y1 r) \<and> isNumText (lt_x2 r) \<and> isNumText (lt_y2 r))"

datatype record_text = PadRec pad_text | LineRec line_text

fun renderRec :: "record_text \<Rightarrow> string" where
  "renderRec (PadRec r) = renderPad r"
| "renderRec (LineRec r) = renderLine r"

fun wfRec :: "record_text \<Rightarrow> bool" where
  "wfRec (PadRec r) = wfPadText r"
| "wfRec (LineRec r) = wfLineText r"

text \<open>
  Other text is clean when no \<^verbatim>\<open>(pad\<close> and no \<^verbatim>\<open>(fp_line\<close> begins in it. A document is a
  list of records, each with the text that follows it; \<open>padsOf\<close> and \<open>linesOf\<close> are the pads
  and the lines that the records describe: the identifier without quotes, and for every
  numeric field what \<^verbatim>\<open>parseFloat\<close> makes of the written text.
\<close>

definition cleanGarbage :: "string \<Rightarrow> bool" where
  "cleanGarbage g = (opensNowhere ''(pad'' g [] \<and> opensNowhere ''(fp_line'' g [])"

fun renderItems :: "(record_text \<times> string) list \<Rightarrow> string" where
  "renderItems [] = []"
| "renderItems ((r, g) # items) = renderRec r @ g @ renderItems items"

fun wfItems :: "(record_text \<times> string) list \<Rightarrow> bool" where
  "wfItems [] = True"
| "wfItems ((r, g) # items) = (wfRec r \<and> cleanGarbage g \<and> wfItems items)"

fun padsOf :: "(record_text \<times> string) list \<Rightarrow> pad list" where
  "padsOf [] = []"
| "padsOf ((PadRec r, g) # items) =
     \<lparr>pad_num = pt_id r, pad_x = parseFloat (pt_x r), pad_y = parseFloat (pt_y r),
      pad_width = parseFloat (pt_w r), pad_height = parseFloat (pt_h r)\<rparr> # padsOf items"
| "padsOf ((LineRec r, g) # items) = padsOf items"

fun linesOf :: "(record_text \<times> string) list \<Rightarrow> outline list" where
  "linesOf [] = []"
| "linesOf ((LineRec r, g) # items) =
     \<lparr>line_x1 = parseFloat (lt_x1 r), line_y1 = parseFloat (lt_y1 r),
      line_x2 = parseFloat (lt_x2 r), line_y2 = parseFloat (lt_y2 r)\<rparr> # linesOf items"
| "linesOf ((PadRec r, g) # items) = linesOf items"

text \<open>The texts that the groups of the two patterns capture in the records of a document.\<close>

fun padMatches :: "(record_text \<times> string) list \<Rightarrow> string list list" where
  "padMatches [] = []"
| "padMatches ((PadRec r, g) # items) = [idText r, pt_x r, pt_y r, pt_w r, pt_h r] # padMatches items"
| "padMatches ((LineRec r, g) # items) = padMatches items"

fun lineMatches :: "(record_text \<times> string) list \<Rightarrow> string list list" where
  "lineMatches [] = []"
| "lineMatches ((LineRec r, g) # items) = [lt_x1 r, lt_y1 r, lt_x2 r, lt_y2 r] # lineMatches items"
| "lineMatches ((PadRec r, g) # items) = lineMatches items"

text \<open>Example records.\<close>

definition pad_1 :: pad_text where
  "pad_1 = \<lparr>pt_sp1 = '' '', pt_quoted = True, pt_id = ''A1'', pt_mid1 = '' smd rect '',
            pt_sp2 = '' '', pt_x = ''1.5'', pt_sp3 = '' '', pt_y = ''-2'',
            pt_rot = Some ('' '', ''90''), pt_mid2 = '' '',
            pt_sp4 = '' '', pt_w = ''1'', pt_sp5 = '' '', pt_h = ''0.5''\<rparr>"

definition line_1 :: line_text where
  "line_1 = \<lparr>lt_sp1 = '' '', lt_sp2 = '' '', lt_x1 = ''-1'', lt_sp3 = '' '', lt_y1 = ''0'',
             lt_sp4 = '' '', lt_sp5 = '' '', lt_x2 = ''1'', lt_sp6 = '' '', lt_y2 = ''0''\<rparr>"

definition pad_2 :: pad_text where
  "pad_2 = \<lparr>pt_sp1 = '' '', pt_quoted = False, pt_id = ''1'', pt_mid1 = '' smd '',
            pt_sp2 = '' '', pt_x = ''0'', pt_sp3 = '' '', pt_y = ''0'', pt_rot = None,
            pt_mid2 = '' '', pt_sp4 = '' '', pt_w = ''1'', pt_sp5 = '' '', pt_h = ''1''\<rparr>"

section \<open>Properties of the symbol layout\<close>

lemma ceil_half_div: "ceil_half n = (n + 1) div 2"
proof -
  have "nat \<lceil>real n / 2\<rceil> = (n + 1) div 2"
    by linarith
  then show ?thesis
    by (simp add: ceil_half_def)
qed

lemma filter_nil_other:
  assumes "filter P xs = []"
  shows "filter (\<lambda>x. \<not> P x) xs = xs"
  using assms by (induction xs) (auto split: if_splits)

lemma filter_nil_other':
  assumes "filter (\<lambda>x. \<not> P x) xs = []"
  shows "filter P xs = xs"
  using assms by (induction xs) (auto split: if_splits)

text \<open>
  Claim C5. When the default classification puts all \<open>n \<ge> 2\<close> pins on one side, exactly the
  first \<open>\<lceil>n/2\<rceil>\<close> pins, in their original order, end on the side that was empty and the
  remaining ones, in their original order, stay.
\<close>

theorem rebalance_moves_first_half:
  assumes "2 \<le> length pins"
  shows "(filter (\<lambda>p. electrical_type p \<in> set leftSideTypes) pins = [] \<longrightarrow>
           layoutSides (\<lambda>p. p) pins =
             (take (nat \<lceil>real (length pins) / 2\<rceil>) pins, drop (nat \<lceil>real (length pins) / 2\<rceil>) pins))
       \<and> (filter (\<lambda>p. electrical_type p \<notin> set leftSideTypes) pins = [] \<longrightarrow>
           layoutSides (\<lambda>p. p) pins =
             (drop (nat \<lceil>real (length pins) / 2\<rceil>) pins, take (nat \<lceil>real (length pins) / 2\<rceil>) pins))"
proof (intro conjI impI)
  from assms have ne: "pins \<noteq> []" by auto
  {
    assume l: "filter (\<lambda>p. electrical_type p \<in> set leftSideTypes) pins = []"
    then have r: "filter (\<lambda>p. electrical_type p \<notin> set leftSideTypes) pins = pins"
      by (rule filter_nil_other)
    show "layoutSides (\<lambda>p. p) pins =
             (take (nat \<lceil>real (length pins) / 2\<rceil>) pins, drop (nat \<lceil>real (length pins) / 2\<rceil>) pins)"
      using ne by (simp add: layoutSides_def l r splice0_def ceil_half_def Let_def)
  }
  {
    assume r: "filter (\<lambda>p. electrical_type p \<notin> set leftSideTypes) pins = []"
    then have l: "filter (\<lambda>p. electrical_type p \<in> set leftSideTypes) pins = pins"
      by (rule filter_nil_other')
    show "layoutSides (\<lambda>p. p) pins =
             (drop (nat \<lceil>real (length pins) / 2\<rceil>) pins, take (nat \<lceil>real (length pins) / 2\<rceil>) pins)"
      using ne by (simp add: layoutSides_def l r splice0_def ceil_half_def Let_def)
  }
qed

theorem rebalance_four_outputs_witness:
  "2 \<le> length [out_pin ''1'', out_pin ''2'', out_pin ''3'', out_pin ''4''] \<and>
   filter (\<lambda>p. electrical_type p \<in> set leftSideTypes)
     [out_pin ''1'', out_pin ''2'', out_pin ''3'', out_pin ''4''] = [] \<and>
   layoutSides (\<lambda>p. p) [out_pin ''1'', out_pin ''2'', out_pin ''3'', out_pin ''4'']
     = ([out_pin ''1'', out_pin ''2''], [out_pin ''3'', out_pin ''4''])"
proof -
  let ?pins = "[out_pin ''1'', out_pin ''2'', out_pin ''3'', out_pin ''4'']"
  have h: "2 \<le> length ?pins" by simp
  have f: "filter (\<lambda>p. electrical_type p \<in> set leftSideTypes) ?pins = []"
    by (simp add: leftSideTypes_def out_pin_def)
  have c: "nat \<lceil>real (length ?pins) / 2\<rceil> = 2" by simp
  from rebalance_moves_first_half[OF h] f
  have "layoutSides (\<lambda>p. p) ?pins =
      (take (nat \<lceil>real (length ?pins) / 2\<rceil>) ?pins, drop (nat \<lceil>real (length ?pins) / 2\<rceil>) ?pins)"
    by blast
  then have "layoutSides (\<lambda>p. p) ?pins = (take 2 ?pins, drop 2 ?pins)"
    by (simp only: c)
  with h f show ?thesis by simp
qed

lemma layoutSides_cases:
  fixes info :: "'a \<Rightarrow> PinInfo"
  defines "P \<equiv> \<lambda>p. electrical_type (info p) \<in> set leftSideTypes"
  shows "layoutSides info xs =
     (if filter P xs = [] \<and> filter (\<lambda>p. \<not> P p) xs \<noteq> [] then
        (take (ceil_half (length (filter (\<lambda>p. \<not> P p) xs))) (filter (\<lambda>p. \<not> P p) xs),
         drop (ceil_half (length (filter (\<lambda>p. \<not> P p) xs))) (filter (\<lambda>p. \<not> P p) xs))
      else if filter (\<lambda>p. \<not> P p) xs = [] \<and> filter P xs \<noteq> [] then
        (drop (ceil_half (length (filter P xs))) (filter P xs),
         take (ceil_half (length (filter P xs))) (filter P xs))
      else (filter P xs, filter (\<lambda>p. \<not> P p) xs))"
proof -
  have e: "(length ys = 0) = (ys = [])" "(0 < length ys) = (ys \<noteq> [])" for ys :: "'a list"
    by simp_all
  show ?thesis
    unfolding layoutSides_def Let_def splice0_def prod.case e P_def
    by (cases "filter (\<lambda>p. electrical_type (info p) \<in> set leftSideTypes) xs = []";
        cases "filter (\<lambda>p. electrical_type (info p) \<notin> set leftSideTypes) xs = []")
       (simp_all only: if_True if_False append_Nil simp_thms)
qed


lemma layoutSides_map:
  "layoutSides (\<lambda>p. p) (map info xs) =
     (map info (fst (layoutSides info xs)), map info (snd (layoutSides info xs)))"
proof -
  let ?P = "\<lambda>p. electrical_type (info p) \<in> set leftSideTypes"
  let ?L = "filter ?P xs" and ?R = "filter (\<lambda>p. \<not> ?P p) xs"
  have l: "filter (\<lambda>p. electrical_type p \<in> set leftSideTypes) (map info xs) = map info ?L"
    by (simp add: filter_map o_def)
  have r: "filter (\<lambda>p. \<not> electrical_type p \<in> set leftSideTypes) (map info xs) = map info ?R"
    by (simp add: filter_map o_def)
  have A: "layoutSides (\<lambda>p. p) (map info xs) =
     (if map info ?L = [] \<and> map info ?R \<noteq> [] then
        (take (ceil_half (length (map info ?R))) (map info ?R),
         drop (ceil_half (length (map info ?R))) (map info ?R))
      else if map info ?R = [] \<and> map info ?L \<noteq> [] then
        (drop (ceil_half (length (map info ?L))) (map info ?L),
         take (ceil_half (length (map info ?L))) (map info ?L))
      else (map info ?L, map info ?R))"
    by (simp only: layoutSides_cases[of "\<lambda>p. p" "map info xs"] l r)
  show ?thesis
  proof (cases "?L = []")
    case L: True
    show ?thesis
    proof (cases "?R = []")
      case True
      with L show ?thesis by (simp add: A layoutSides_cases[of info xs])
    next
      case False
      with L show ?thesis by (simp add: A layoutSides_cases[of info xs] take_map drop_map)
    qed
  next
    case L: False
    show ?thesis
    proof (cases "?R = []")
      case True
      with L show ?thesis by (simp add: A layoutSides_cases[of info xs] take_map drop_map)
    next
      case False
      with L show ?thesis by (simp add: A layoutSides_cases[of info xs])
    qed
  qed
qed

lemma layoutSides_distinct:
  assumes "distinct xs"
  shows "distinct (fst (layoutSides info xs) @ snd (layoutSides info xs))"
proof -
  let ?P = "\<lambda>p. electrical_type (info p) \<in> set leftSideTypes"
  let ?L = "filter ?P xs" and ?R = "filter (\<lambda>p. \<not> ?P p) xs"
  have d1: "distinct ?L" and d2: "distinct ?R"
    using assms by simp_all
  have td: "distinct (take k ys @ drop k ys)" if "distinct ys" for k and ys :: "'a list"
    using that by simp
  have dt: "distinct (drop k ys @ take k ys)" if "distinct ys" for k and ys :: "'a list"
    using td[OF that, of k] by (simp only: distinct_append) blast
  have both: "distinct (?L @ ?R)"
    using d1 d2 by auto
  show ?thesis
  proof (cases "?L = []")
    case L: True
    show ?thesis
    proof (cases "?R = []")
      case True
      with L show ?thesis by (simp add: layoutSides_cases[of info xs])
    next
      case False
      with L td[OF d2] show ?thesis
        by (simp add: layoutSides_cases[of info xs] del: distinct_append append_take_drop_id)
    qed
  next
    case L: False
    show ?thesis
    proof (cases "?R = []")
      case True
      with L dt[OF d1] show ?thesis
        by (simp add: layoutSides_cases[of info xs] del: distinct_append append_take_drop_id)
    next
      case False
      with L both show ?thesis
        by (simp add: layoutSides_cases[of info xs] del: distinct_append)
    qed
  qed
qed

lemma indexOf_nth:
  "distinct xs \<Longrightarrow> i < length xs \<Longrightarrow> indexOf xs (xs ! i) = int i"
proof (induction xs arbitrary: i)
  case Nil
  then show ?case by simp
next
  case (Cons a xs)
  show ?case
  proof (cases i)
    case 0
    then show ?thesis by simp
  next
    case (Suc k)
    with Cons.prems have "k < length xs" "distinct xs" "a \<noteq> xs ! k" by auto
    with Cons.IH[of k] Suc show ?thesis by (simp add: Let_def)
  qed
qed

lemma concat_map_if:
  "concat (map (\<lambda>p. if c p then [n p] else []) xs) = map n (filter c xs)"
  by (induction xs) auto

lemma filter_single:
  assumes "i < length xs" "P (xs ! i)" "\<forall>j < length xs. j \<noteq> i \<longrightarrow> \<not> P (xs ! j)"
  shows "filter P xs = [xs ! i]"
  using assms
proof (induction xs arbitrary: i)
  case Nil
  then show ?case by simp
next
  case (Cons a xs)
  show ?case
  proof (cases i)
    case 0
    have "\<not> P x" if "x \<in> set xs" for x
    proof -
      from that obtain k where "k < length xs" "xs ! k = x" by (auto simp: in_set_conv_nth)
      with Cons.prems(3)[rule_format, of "Suc k"] 0 show ?thesis by auto
    qed
    then have "filter P xs = []" by (simp add: filter_empty_conv)
    with 0 Cons.prems show ?thesis by simp
  next
    case (Suc k)
    from Cons.prems(3)[rule_format, of 0] Suc have na: "\<not> P a" by simp
    have "filter P xs = [xs ! k]"
    proof (rule Cons.IH)
      show "k < length xs" using Cons.prems Suc by simp
      show "P (xs ! k)" using Cons.prems Suc by simp
      show "\<forall>j<length xs. j \<noteq> k \<longrightarrow> \<not> P (xs ! j)"
      proof (intro allI impI)
        fix j assume "j < length xs" "j \<noteq> k"
        with Cons.prems(3)[rule_format, of "Suc j"] Suc show "\<not> P (xs ! j)" by simp
      qed
    qed
    with na Suc show ?thesis by simp
  qed
qed


lemma nearLeadBy_mk:
  "nearLeadBy distance x y \<lparr>lead_number = n, edge_x = e,
       outer_x = (if isLeft then e - pinLen else e + pinLen), lead_y = ly, lead_selected = b\<rparr>
   = (distance x (if isLeft then e - 15 else e + 15) y ly < 20)"
proof -
  have "(e + (e - 30)) / 2 = e - 15" "(e + (e + 30)) / 2 = e + 15" by argo+
  then show ?thesis
    by (cases isLeft) (simp_all only: nearLeadBy_def pinLen_def lead.simps if_True if_False)
qed

lemma enumerate_upt: "enumerate 0 xs = map (\<lambda>i. (i, xs ! i)) [0..<length xs]"
  by (rule nth_equalityI) (simp_all add: nth_enumerate_eq)

lemma side_click:
  assumes "distinct side"
  shows "concat (map (\<lambda>pin.
           let idx = indexOf side pin;
               py = cY - (real (length side) - 1) * pinSpacing / 2 + real_of_int idx * pinSpacing;
               px = (if isLeft then cX - boxWidth / 2 - 15 else cX + boxWidth / 2 + 15);
               dist = distance x px y py
           in if dist < 20 then [pin_number (snd pin)] else []) side)
       = map lead_number (filter (nearLeadBy distance x y) (drawSidePins cX cY sel (map snd side) isLeft))"
proof -
  let ?n = "length side"
  let ?c = "\<lambda>i. distance x (if isLeft then cX - boxWidth / 2 - 15 else cX + boxWidth / 2 + 15)
              y (cY - (real ?n - 1) * pinSpacing / 2 + real i * pinSpacing) < 20"
  let ?m = "\<lambda>i. pin_number (snd (side ! i))"
  have "concat (map (\<lambda>pin.
           let idx = indexOf side pin;
               py = cY - (real (length side) - 1) * pinSpacing / 2 + real_of_int idx * pinSpacing;
               px = (if isLeft then cX - boxWidth / 2 - 15 else cX + boxWidth / 2 + 15);
               dist = distance x px y py
           in if dist < 20 then [pin_number (snd pin)] else []) (map (\<lambda>i. side ! i) [0..<?n]))
      = concat (map (\<lambda>i. if ?c i then [?m i] else []) [0..<?n])"
    unfolding map_map
    by (rule arg_cong[where f=concat], rule map_cong) (simp_all add: indexOf_nth[OF assms] Let_def)
  then have lhs: "concat (map (\<lambda>pin.
           let idx = indexOf side pin;
               py = cY - (real (length side) - 1) * pinSpacing / 2 + real_of_int idx * pinSpacing;
               px = (if isLeft then cX - boxWidth / 2 - 15 else cX + boxWidth / 2 + 15);
               dist = distance x px y py
           in if dist < 20 then [pin_number (snd pin)] else []) side)
      = map ?m (filter ?c [0..<?n])"
    by (simp only: map_nth concat_map_if)
  have rhs: "map lead_number (filter (nearLeadBy distance x y) (drawSidePins cX cY sel (map snd side) isLeft))
      = map ?m (filter ?c [0..<?n])"
    by (auto simp add: drawSidePins_def enumerate_upt filter_map o_def Let_def nearLeadBy_mk
          intro!: map_cong filter_cong)
  show ?thesis using lhs rhs by simp
qed

lemma schematicClickBy_draw:
  "schematicClickBy distance pins x y
     = map lead_number (filter (nearLeadBy distance x y) (schematicDraw pins sel))"
proof -
  obtain L R where LR: "layoutSides snd (enumerate 0 pins) = (L, R)"
    by (cases "layoutSides snd (enumerate 0 pins)")
  have d: "distinct (L @ R)"
    using layoutSides_distinct[of "enumerate 0 pins" snd] LR by (simp add: distinct_enumerate)
  have lay: "layoutSides (\<lambda>p. p) pins = (map snd L, map snd R)"
    using layoutSides_map[of snd "enumerate 0 pins"] LR by simp
  define cX where "cX = symbolCanvasWidth / 2"
  define cY where "cY = (boxHeight (map snd L) (map snd R) + 100) / 2"
  have h: "symbolCanvasHeight pins / 2 = cY"
    by (simp add: symbolCanvasHeight_def lay cY_def)
  let ?F = "\<lambda>side isLeft pin.
           let idx = indexOf side pin;
               py = cY - (real (length side) - 1) * pinSpacing / 2 + real_of_int idx * pinSpacing;
               px = (if isLeft then cX - boxWidth / 2 - 15 else cX + boxWidth / 2 + 15);
               dist = distance x px y py
           in if dist < 20 then [pin_number (snd pin)] else []"
  have click: "schematicClickBy distance pins x y =
      concat (map (\<lambda>pin. ?F (if pin \<in> set L then L else R) (pin \<in> set L) pin) (L @ R))"
    by (simp add: schematicClickBy_def LR h Let_def flip: cX_def)
  have left: "map (\<lambda>pin. ?F (if pin \<in> set L then L else R) (pin \<in> set L) pin) L = map (?F L True) L"
    by (rule map_cong) simp_all
  have right: "map (\<lambda>pin. ?F (if pin \<in> set L then L else R) (pin \<in> set L) pin) R = map (?F R False) R"
  proof (rule map_cong)
    fix pin assume "pin \<in> set R"
    with d have "pin \<notin> set L" by auto
    then show "?F (if pin \<in> set L then L else R) (pin \<in> set L) pin = ?F R False pin" by simp
  qed simp
  from d have dL: "distinct L" and dR: "distinct R" by simp_all
  have "schematicClickBy distance pins x y = concat (map (?F L True) L) @ concat (map (?F R False) R)"
    by (simp only: click map_append concat_append left right)
  also have "\<dots> = map lead_number (filter (nearLeadBy distance x y) (drawSidePins cX cY sel (map snd L) True))
      @ map lead_number (filter (nearLeadBy distance x y) (drawSidePins cX cY sel (map snd R) False))"
    using side_click[OF dL, where cY = cY and isLeft = True and cX = cX and x = x and y = y
            and sel = sel and distance = distance]
          side_click[OF dR, where cY = cY and isLeft = False and cX = cX and x = x and y = y
            and sel = sel and distance = distance]
    by simp
  finally have eq: "schematicClickBy distance pins x y =
      map lead_number (filter (nearLeadBy distance x y)
        (drawSidePins cX cY sel (map snd L) True @ drawSidePins cX cY sel (map snd R) False))"
    by simp
  show ?thesis
  proof (cases "length pins = 0")
    case True
    then show ?thesis
      by (simp add: schematicClickBy_def schematicDraw_def layoutSides_def)
  next
    case False
    then have "schematicDraw pins sel =
        drawSidePins cX cY sel (map snd L) True @ drawSidePins cX cY sel (map snd R) False"
      by (simp add: schematicDraw_def lay cX_def cY_def Let_def)
    with eq show ?thesis by simp
  qed
qed

text \<open>
  Claim C2, as amended. The handler's circular target is centred on the midpoint of the
  drawn lead, 15 units from the box edge, not on its outer endpoint, and the test is made
  on the distance as the handler computes it in double arithmetic: a click whose computed
  distance from the midpoint of a lead is less than 20 makes the handler request that
  lead's pin number, and when the computed distance from no other lead's midpoint is less
  than 20 the selection becomes that number. This holds whatever the rounding of the
  computation is.
\<close>

theorem click_selects_lead_at_midpoint:
  assumes "i < length (schematicDraw pins sel)"
    and "nearLeadBy distance x y (schematicDraw pins sel ! i)"
  shows "lead_number (schematicDraw pins sel ! i) \<in> set (schematicClickBy distance pins x y) \<and>
         ((\<forall>j < length (schematicDraw pins sel). j \<noteq> i \<longrightarrow>
              \<not> nearLeadBy distance x y (schematicDraw pins sel ! j))
            \<longrightarrow> applySelects (schematicClickBy distance pins x y) sel
                  = Some (lead_number (schematicDraw pins sel ! i)))"
proof (intro conjI impI)
  have "schematicDraw pins sel ! i \<in> set (filter (nearLeadBy distance x y) (schematicDraw pins sel))"
    using assms by simp
  then show "lead_number (schematicDraw pins sel ! i) \<in> set (schematicClickBy distance pins x y)"
    by (simp only: schematicClickBy_draw[of distance pins x y sel] set_map) (rule imageI)
next
  assume "\<forall>j < length (schematicDraw pins sel). j \<noteq> i \<longrightarrow>
            \<not> nearLeadBy distance x y (schematicDraw pins sel ! j)"
  with assms have "filter (nearLeadBy distance x y) (schematicDraw pins sel) = [schematicDraw pins sel ! i]"
    by (intro filter_single)
  then have "schematicClickBy distance pins x y = [lead_number (schematicDraw pins sel ! i)]"
    by (simp add: schematicClickBy_draw[of distance pins x y sel])
  then show "applySelects (schematicClickBy distance pins x y) sel
      = Some (lead_number (schematicDraw pins sel ! i))"
    by (simp add: applySelects_def)
qed

lemma sqrt_less_20_iff: "sqrt a < 20 \<longleftrightarrow> a < 400"
proof -
  have "sqrt 400 = 20" by (rule real_sqrt_unique) simp_all
  then show ?thesis using real_sqrt_less_iff[of a 400] by simp
qed

lemma sqrt_le_20_iff: "sqrt a \<le> 20 \<longleftrightarrow> a \<le> 400"
proof -
  have "sqrt 400 = 20" by (rule real_sqrt_unique) simp_all
  then show ?thesis using real_sqrt_le_iff[of a 400] by simp
qed

lemmas symbol_defs = schematicDraw_def schematicClick_def schematicClickBy_def exactDist_def
  symbolCanvasHeight_def layoutSides_def
  leftSideTypes_def splice0_def ceil_half_div drawSidePins_def boxHeight_def pinSpacing_def
  boxWidth_def pinLen_def symbolCanvasWidth_def Let_def in_pin_def out_pin_def

lemma draw_one: "schematicDraw [in_pin ''1''] None =
   [\<lparr>lead_number = ''1'', edge_x = 280, outer_x = 310, lead_y = 100, lead_selected = False\<rparr>]"
  by (simp add: symbol_defs)

text \<open>
  Claim C2 as stated fails: the only lead of a one-pin symbol ends at \<open>(310, 100)\<close>; a
  click at \<open>(325, 100)\<close> is 15 units from that endpoint and selects nothing.
\<close>

theorem click_near_outer_endpoint_counterexample:
  "schematicDraw [in_pin ''1''] None =
     [\<lparr>lead_number = ''1'', edge_x = 280, outer_x = 310, lead_y = 100, lead_selected = False\<rparr>]
   \<and> sqrt ((325 - 310)\<^sup>2 + (100 - 100)\<^sup>2) \<le> (20::real)
   \<and> schematicClick [in_pin ''1''] 325 100 = []
   \<and> applySelects (schematicClick [in_pin ''1''] 325 100) None \<noteq> Some ''1''"
  by (simp add: symbol_defs sqrt_le_20_iff sqrt_less_20_iff applySelects_def)

lemma draw_two: "schematicDraw [in_pin ''1'', out_pin ''2''] None =
   [\<lparr>lead_number = ''1'', edge_x = 120, outer_x = 90, lead_y = 100, lead_selected = False\<rparr>,
    \<lparr>lead_number = ''2'', edge_x = 280, outer_x = 310, lead_y = 100, lead_selected = False\<rparr>]"
  by (simp add: symbol_defs)

theorem click_selects_lead_at_midpoint_witness:
  "0 < length (schematicDraw [in_pin ''1'', out_pin ''2''] None)
   \<and> nearLeadBy exactDist 114 112 (schematicDraw [in_pin ''1'', out_pin ''2''] None ! 0)
   \<and> length (schematicDraw [in_pin ''1'', out_pin ''2''] None) = 2
   \<and> \<not> nearLeadBy exactDist 114 112 (schematicDraw [in_pin ''1'', out_pin ''2''] None ! 1)
   \<and> ''1'' \<in> set (schematicClickBy exactDist [in_pin ''1'', out_pin ''2''] 114 112)
   \<and> applySelects (schematicClickBy exactDist [in_pin ''1'', out_pin ''2''] 114 112) None = Some ''1''"
proof -
  let ?d = "schematicDraw [in_pin ''1'', out_pin ''2''] None"
  have h1: "0 < length ?d" by (simp add: draw_two)
  have h2: "nearLeadBy exactDist 114 112 (?d ! 0)"
    by (simp add: draw_two nearLeadBy_def exactDist_def sqrt_less_20_iff)
  have h3: "\<forall>j < length ?d. j \<noteq> 0 \<longrightarrow> \<not> nearLeadBy exactDist 114 112 (?d ! j)"
    by (simp add: draw_two nearLeadBy_def exactDist_def sqrt_less_20_iff less_Suc_eq)
  have n: "lead_number (?d ! 0) = ''1''" by (simp add: draw_two)
  from click_selects_lead_at_midpoint[OF h1 h2] h3
  have "lead_number (?d ! 0) \<in> set (schematicClickBy exactDist [in_pin ''1'', out_pin ''2''] 114 112)
        \<and> applySelects (schematicClickBy exactDist [in_pin ''1'', out_pin ''2''] 114 112) None
            = Some (lead_number (?d ! 0))"
    by blast
  moreover have "length ?d = 2" by (simp add: draw_two)
  moreover have "\<not> nearLeadBy exactDist 114 112 (?d ! 1)"
    by (simp add: draw_two nearLeadBy_def exactDist_def sqrt_less_20_iff)
  ultimately show ?thesis using h1 h2 by (simp only: n simp_thms)
qed

text \<open>
  Claim C2 as stated fails in a second way, which is why the amended claim speaks of a
  request: the targets of neighbouring leads overlap. With two input pins and one output
  pin the left leads have their midpoints at \<open>(105, 85)\<close> and \<open>(105, 120)\<close>; a click at
  \<open>(105, 101)\<close> is 16 units from the first and 19 from the second, the handler requests
  both pins in turn, and the selection becomes pin 2, not pin 1. All the values of this
  computation are integers, so the double arithmetic of the handler is exact here.
\<close>

lemma draw_three: "schematicDraw [in_pin ''1'', in_pin ''2'', out_pin ''3''] None =
   [\<lparr>lead_number = ''1'', edge_x = 120, outer_x = 90, lead_y = 85, lead_selected = False\<rparr>,
    \<lparr>lead_number = ''2'', edge_x = 120, outer_x = 90, lead_y = 120, lead_selected = False\<rparr>,
    \<lparr>lead_number = ''3'', edge_x = 280, outer_x = 310, lead_y = 205 / 2, lead_selected = False\<rparr>]"
  by (simp add: symbol_defs)

theorem click_in_two_targets_selects_last:
  "schematicDraw [in_pin ''1'', in_pin ''2'', out_pin ''3''] None =
     [\<lparr>lead_number = ''1'', edge_x = 120, outer_x = 90, lead_y = 85, lead_selected = False\<rparr>,
      \<lparr>lead_number = ''2'', edge_x = 120, outer_x = 90, lead_y = 120, lead_selected = False\<rparr>,
      \<lparr>lead_number = ''3'', edge_x = 280, outer_x = 310, lead_y = 205 / 2, lead_selected = False\<rparr>]
   \<and> exactDist 105 ((120 + 90) / 2) 101 85 = 16
   \<and> exactDist 105 ((120 + 90) / 2) 101 120 = 19
   \<and> schematicClick [in_pin ''1'', in_pin ''2'', out_pin ''3''] 105 101 = [''1'', ''2'']
   \<and> applySelects (schematicClick [in_pin ''1'', in_pin ''2'', out_pin ''3''] 105 101) None = Some ''2''
   \<and> applySelects (schematicClick [in_pin ''1'', in_pin ''2'', out_pin ''3''] 105 101) None \<noteq> Some ''1''"
proof -
  have s16: "sqrt 256 = 16" by (rule real_sqrt_unique) simp_all
  have s19: "sqrt 361 = 19" by (rule real_sqrt_unique) simp_all
  have a: "exactDist 105 ((120 + 90) / 2) 101 85 = 16"
    by (simp add: exactDist_def s16)
  have b: "exactDist 105 ((120 + 90) / 2) 101 120 = 19"
    by (simp add: exactDist_def s19)
  have c: "schematicClick [in_pin ''1'', in_pin ''2'', out_pin ''3''] 105 101 = [''1'', ''2'']"
    by (simp add: symbol_defs sqrt_less_20_iff power2_eq_square)
  show ?thesis
    using a b by (simp add: draw_three c applySelects_def)
qed

section \<open>Properties of the footprint view, the leads and the selection\<close>

text \<open>
  Claim C7. With no pad and no line the bounding box is the fallback \<open>[-5, 5]\<close> on both
  axes, and the scale on the 400 by 400 canvas is the finite positive number 36 (no
  division by zero, no \<open>NaN\<close>).
\<close>

theorem empty_geometry_fallback:
  "bounds [] [] = (Fin (- 5), Fin 5, Fin (- 5), Fin 5) \<and>
   viewTransform footprintCanvasWidth footprintCanvasHeight [] []
     = \<lparr>t_centerX = Fin 200, t_centerY = Fin 200, t_scale = Fin 36\<rparr>"
  by (simp add: bounds_def viewTransform_def footprintCanvasWidth_def footprintCanvasHeight_def
        minus_jsnum_def Let_def)

lemma upt8: "[0..<8] = [0, 1, 2, 3, 4, 5, 6, 7]"
  by (simp add: upt_conv_Cons)

lemma toString_digits:
  "toString (Suc 0) = ''1''" "toString (Suc (Suc 0)) = ''2''" "toString 1 = ''1''" "toString 2 = ''2''" "toString 3 = ''3''" "toString 4 = ''4''"
  "toString 5 = ''5''" "toString 6 = ''6''" "toString 7 = ''7''" "toString 8 = ''8''"
  by (simp_all add: toString.simps)

text \<open>
  Claim C10. When \<^verbatim>\<open>pinCount\<close> is absent or 0, exactly 8 leads are generated: the first
  four, numbered \<open>1\<close> to \<open>4\<close>, on one edge (side \<open>-1\<close>) and the last four, numbered \<open>5\<close>
  to \<open>8\<close>, on the other (side \<open>1\<close>); the pin list of the bundle plays no role.
\<close>

theorem default_eight_leads:
  assumes "fd_pinCount data = None \<or> fd_pinCount data = Some 0"
  shows "length (modelPins data sel) = 8
       \<and> map lead_pinNum (take 4 (modelPins data sel)) = [''1'', ''2'', ''3'', ''4'']
       \<and> map lead_side (take 4 (modelPins data sel)) = [- 1, - 1, - 1, - 1]
       \<and> map lead_pinNum (drop 4 (modelPins data sel)) = [''5'', ''6'', ''7'', ''8'']
       \<and> map lead_side (drop 4 (modelPins data sel)) = [1, 1, 1, 1]"
proof -
  from assms have pc: "orDefault (fd_pinCount data) 8 = 8"
    by (auto simp add: orDefault_def)
  have c: "nat \<lceil>8 :: rat\<rceil> = 8" "\<lceil>(8 :: rat) / 2\<rceil> = 4" by simp_all
  show ?thesis
    by (simp add: modelPins_def pc c upt8 Let_def toString_digits)
qed

lemmas regex_eval = padRegex_def lineRegex_def lit_def is_space_def is_num_def is_digit_def
  is_word_def is_any_def push_def
lemmas parse_eval = parsePads_def parseLines_def parseFloat_def digitsVal_def digitVal_def
  parseExponent_def
lemmas view_eval = footprintEffect_def bounds_def viewTransform_def drawFootprint_def minus_jsnum_def
  footprintCanvasWidth_def footprintCanvasHeight_def Let_def

theorem default_eight_leads_witness:
  "(fd_pinCount data1 = None \<or> fd_pinCount data1 = Some 0)
   \<and> length (modelPins data1 None) = 8
   \<and> map lead_pinNum (take 4 (modelPins data1 None)) = [''1'', ''2'', ''3'', ''4'']
   \<and> map lead_side (take 4 (modelPins data1 None)) = [- 1, - 1, - 1, - 1]
   \<and> map lead_pinNum (drop 4 (modelPins data1 None)) = [''5'', ''6'', ''7'', ''8'']
   \<and> map lead_side (drop 4 (modelPins data1 None)) = [1, 1, 1, 1]"
proof -
  have h: "fd_pinCount data1 = None \<or> fd_pinCount data1 = Some 0"
    by (simp add: data1_def)
  from default_eight_leads[OF h, of None] h show ?thesis by blast
qed

lemma effect_data1:
  "footprintEffect (fd_kicadMod data1) sel =
     Some \<lparr>padsRef = [\<lparr>pad_num = ''1'', pad_x = Fin 0, pad_y = Fin 0, pad_width = Fin 1, pad_height = Fin 1\<rparr>],
           transformRef = \<lparr>t_centerX = Fin 200, t_centerY = Fin 200, t_scale = Fin 90\<rparr>,
           scene = [FillPad ''1'' (Fin 155) (Fin 155) (Fin 90) (Fin 90) (sel = Some ''1'')]\<rparr>"
  by (simp add: data1_def regex_eval parse_eval view_eval)

text \<open>
  Claim C6, as amended. A click that hits no lead of the symbol, or no pad of the
  footprint, leaves \<^verbatim>\<open>selectedPinNumber\<close> unchanged (no renderer clears the selection);
  the dismiss control sets it to null.
\<close>

theorem empty_click_keeps_selection:
  "(schematicClick (case fd_pins data of None \<Rightarrow> [] | Some ps \<Rightarrow> ps) x y = [] \<longrightarrow>
       handleEvent data sel (SymbolClick x y) = sel)
   \<and> (footprintEffect (fd_kicadMod data) sel = Some v
        \<and> find (padContains (transformRef v) (Fin fx) (Fin fy)) (padsRef v) = None \<longrightarrow>
       handleEvent data sel (FootprintClick fx fy) = sel)
   \<and> handleEvent data sel Dismiss = None"
  by (simp add: handleEvent_def applySelects_def footprintClick_def)

lemma symbol_miss_data1: "schematicClick [in_pin ''A1'', out_pin ''B7''] 0 0 = []"
  by (simp add: symbol_defs sqrt_less_20_iff)

lemma footprint_miss_data1:
  "find (padContains \<lparr>t_centerX = Fin 200, t_centerY = Fin 200, t_scale = Fin 90\<rparr> (Fin 0) (Fin 0))
     [\<lparr>pad_num = ''1'', pad_x = Fin 0, pad_y = Fin 0, pad_width = Fin 1, pad_height = Fin 1\<rparr>] = None"
  by (simp add: padContains_def minus_jsnum_def)

theorem empty_click_keeps_selection_witness:
  "schematicClick [in_pin ''A1'', out_pin ''B7''] 0 0 = []
   \<and> handleEvent data1 (Some ''1'') (SymbolClick 0 0) = Some ''1''
   \<and> find (padContains \<lparr>t_centerX = Fin 200, t_centerY = Fin 200, t_scale = Fin 90\<rparr> (Fin 0) (Fin 0))
        [\<lparr>pad_num = ''1'', pad_x = Fin 0, pad_y = Fin 0, pad_width = Fin 1, pad_height = Fin 1\<rparr>] = None
   \<and> handleEvent data1 (Some ''1'') (FootprintClick 0 0) = Some ''1''
   \<and> handleEvent data1 (Some ''1'') Dismiss = None"
proof -
  have p: "(case fd_pins data1 of None \<Rightarrow> [] | Some ps \<Rightarrow> ps) = [in_pin ''A1'', out_pin ''B7'']"
    by (simp add: data1_def)
  note t = empty_click_keeps_selection[of data1 0 0 "Some ''1''"
      "\<lparr>padsRef = [\<lparr>pad_num = ''1'', pad_x = Fin 0, pad_y = Fin 0, pad_width = Fin 1, pad_height = Fin 1\<rparr>],
           transformRef = \<lparr>t_centerX = Fin 200, t_centerY = Fin 200, t_scale = Fin 90\<rparr>,
           scene = [FillPad ''1'' (Fin 155) (Fin 155) (Fin 90) (Fin 90) True]\<rparr>" 0 0]
  have a: "handleEvent data1 (Some ''1'') (SymbolClick 0 0) = Some ''1''"
    using t symbol_miss_data1 by (simp only: p simp_thms)
  have b: "handleEvent data1 (Some ''1'') (FootprintClick 0 0) = Some ''1''"
    using t footprint_miss_data1 effect_data1[of "Some ''1''"] by simp
  have c: "handleEvent data1 (Some ''1'') Dismiss = None"
    using t by simp
  from a b c symbol_miss_data1 footprint_miss_data1 show ?thesis by simp
qed

text \<open>
  Claim C6 as stated fails: with pad \<open>1\<close> selected, a click at the corner \<open>(0, 0)\<close> of the
  footprint canvas is in no pad, and the selection is still \<open>1\<close>.
\<close>

theorem empty_click_counterexample:
  "find (padContains \<lparr>t_centerX = Fin 200, t_centerY = Fin 200, t_scale = Fin 90\<rparr> (Fin 0) (Fin 0))
        [\<lparr>pad_num = ''1'', pad_x = Fin 0, pad_y = Fin 0, pad_width = Fin 1, pad_height = Fin 1\<rparr>] = None
   \<and> footprintEffect (fd_kicadMod data1) (Some ''1'') =
     Some \<lparr>padsRef = [\<lparr>pad_num = ''1'', pad_x = Fin 0, pad_y = Fin 0, pad_width = Fin 1, pad_height = Fin 1\<rparr>],
           transformRef = \<lparr>t_centerX = Fin 200, t_centerY = Fin 200, t_scale = Fin 90\<rparr>,
           scene = [FillPad ''1'' (Fin 155) (Fin 155) (Fin 90) (Fin 90) True]\<rparr>
   \<and> handleEvent data1 (Some ''1'') (FootprintClick 0 0) = Some ''1''
   \<and> handleEvent data1 (Some ''1'') (FootprintClick 0 0) \<noteq> None"
  using footprint_miss_data1 effect_data1[of "Some ''1''"]
  by (simp add: handleEvent_def footprintClick_def applySelects_def)

lemma appStep_consistent:
  "mounted_consistent st \<Longrightarrow> mounted_consistent (appStep st ev)"
  by (cases ev)
     (auto simp add: mounted_consistent_def appStep_def reconcile_def split: option.splits prod.splits)

text \<open>
  Claim C9, as amended. While the preview stays mounted, a re-render leaves
  \<^verbatim>\<open>selectedPinNumber\<close> unchanged, and so does the arrival of a new bundle: the selection
  is not reset.
\<close>

theorem selection_kept_while_mounted:
  assumes "mounted_consistent st" and "app_preview st = Some s"
  shows "app_preview (appStep st Rerender) = Some s
       \<and> app_preview (appStep st (ProcessDone d)) = Some s"
  using assms by (auto simp add: mounted_consistent_def appStep_def reconcile_def)

theorem selection_kept_while_mounted_witness:
  "mounted_consistent \<lparr>app_result = Some data1, app_viewMode = Visual, app_preview = Some (Some ''3'')\<rparr>
   \<and> app_preview \<lparr>app_result = Some data1, app_viewMode = Visual, app_preview = Some (Some ''3'')\<rparr>
       = Some (Some ''3'')
   \<and> app_preview (appStep \<lparr>app_result = Some data1, app_viewMode = Visual, app_preview = Some (Some ''3'')\<rparr>
        Rerender) = Some (Some ''3'')
   \<and> app_preview (appStep \<lparr>app_result = Some data1, app_viewMode = Visual, app_preview = Some (Some ''3'')\<rparr>
        (ProcessDone data2)) = Some (Some ''3'')"
proof -
  let ?st = "\<lparr>app_result = Some data1, app_viewMode = Visual, app_preview = Some (Some ''3'')\<rparr>"
  have c: "mounted_consistent ?st" by (simp add: mounted_consistent_def)
  have p: "app_preview ?st = Some (Some ''3'')" by simp
  from selection_kept_while_mounted[OF c p, of data2] c p show ?thesis by blast
qed

text \<open>
  Claim C9 as stated fails: with pin \<open>3\<close> selected, a second bundle replaces the first
  and the selection is still \<open>3\<close>.
\<close>

theorem new_bundle_keeps_selection_counterexample:
  "data2 \<noteq> data1
   \<and> appStep \<lparr>app_result = Some data1, app_viewMode = Visual, app_preview = Some (Some ''3'')\<rparr>
        (ProcessDone data2)
      = \<lparr>app_result = Some data2, app_viewMode = Visual, app_preview = Some (Some ''3'')\<rparr>
   \<and> app_preview (appStep \<lparr>app_result = Some data1, app_viewMode = Visual, app_preview = Some (Some ''3'')\<rparr>
        (ProcessDone data2)) \<noteq> Some None"
  by (simp add: appStep_def reconcile_def data1_def data2_def)

section \<open>Properties of the parser\<close>

lemma plainOpt_closes0:
  "list_all (\<lambda>i. closes i = 0 \<and> plainOpt i) g \<Longrightarrow> sum_list (map closes g) = 0 \<and> list_all plainOpt g"
  by (induction g) auto

lemma rmatch_groups:
  "list_all plainOpt k \<Longrightarrow> rmatch k s caps cur = Some res \<Longrightarrow>
     length (fst res) = length caps + sum_list (map closes k) \<and> length (snd res) \<le> length s"
proof (induction k s caps cur arbitrary: res rule: rmatch.induct)
  case (1 s caps cur)
  then show ?case by auto
next
  case (2 a k s caps cur)
  show ?case
  proof (cases s)
    case Nil
    with "2.prems" show ?thesis by simp
  next
    case (Cons x xs)
    with "2.prems" have xa: "x = a" and m: "rmatch k xs caps (push x cur) = Some res"
      by (auto split: if_splits)
    from "2.IH"[OF Cons xa _ m] "2.prems"(1) Cons show ?thesis by simp
  qed
next
  case (3 C k s caps cur)
  show ?case
  proof (cases s)
    case Nil
    with "3.prems" show ?thesis by simp
  next
    case (Cons x xs)
    with "3.prems" have cx: "C x" and m: "rmatch (Star C # k) xs caps (push x cur) = Some res"
      by (auto split: if_splits)
    from "3.IH"[OF Cons cx _ m] "3.prems"(1) Cons show ?thesis by simp
  qed
next
  case (4 C k s caps cur)
  show ?case
  proof (cases s)
    case Nil
    with "4.prems" have m: "rmatch k s caps cur = Some res" by simp
    from "4.IH"(1)[OF Nil _ m] "4.prems"(1) show ?thesis by simp
  next
    case (Cons x xs)
    show ?thesis
    proof (cases "C x")
      case True
      show ?thesis
      proof (cases "rmatch (Star C # k) xs caps (push x cur)")
        case None
        with "4.prems" Cons True have m: "rmatch k s caps cur = Some res" by simp
        from "4.IH"(3)[OF Cons True None _ m] "4.prems"(1) show ?thesis by simp
      next
        case (Some a)
        with "4.prems" Cons True have "a = res" by simp
        with Some have m: "rmatch (Star C # k) xs caps (push x cur) = Some res" by simp
        from "4.IH"(2)[OF Cons True _ m] "4.prems"(1) Cons show ?thesis by simp
      qed
    next
      case False
      with "4.prems" Cons have m: "rmatch k s caps cur = Some res" by simp
      from "4.IH"(4)[OF Cons False _ m] "4.prems"(1) show ?thesis by simp
    qed
  qed
next
  case (5 C k s caps cur)
  show ?case
  proof (cases "rmatch k s caps cur")
    case (Some a)
    with "5.prems" have "a = res" by simp
    with Some have m: "rmatch k s caps cur = Some res" by simp
    from "5.IH"(1)[OF _ m] "5.prems"(1) show ?thesis by simp
  next
    case None
    show ?thesis
    proof (cases s)
      case Nil
      with "5.prems" None show ?thesis by simp
    next
      case (Cons x xs)
      with "5.prems" None have cx: "C x"
        and m: "rmatch (StarLazy C # k) xs caps (push x cur) = Some res"
        by (auto split: if_splits)
      from "5.IH"(2)[OF None Cons cx _ m] "5.prems"(1) Cons show ?thesis by simp
    qed
  qed
next
  case (6 g k s caps cur)
  from "6.prems"(1) have g: "sum_list (map closes g) = 0" "list_all plainOpt g"
    and k: "list_all plainOpt k"
    using plainOpt_closes0[of g] by auto
  show ?case
  proof (cases "rmatch (g @ k) s caps cur")
    case (Some a)
    with "6.prems" have "a = res" by simp
    with Some have m: "rmatch (g @ k) s caps cur = Some res" by simp
    from g k have "list_all plainOpt (g @ k)" by simp
    from "6.IH"(1)[OF this m] g show ?thesis by simp
  next
    case None
    with "6.prems" have m: "rmatch k s caps cur = Some res" by simp
    from "6.IH"(2)[OF None k m] g show ?thesis by simp
  qed
next
  case (7 k s caps cur)
  from "7.prems" have m: "rmatch k s caps (Some []) = Some res" by simp
  from "7.IH"[OF _ m] "7.prems"(1) show ?case by simp
next
  case (8 k s caps cur)
  from "8.prems" have m: "rmatch k s (caps @ [case cur of Some a \<Rightarrow> a | None \<Rightarrow> []]) None = Some res"
    by simp
  from "8.IH"[OF _ m] "8.prems"(1) show ?case by simp
qed


lemma exec_groups:
  assumes "list_all plainOpt k" and "exec (Chr a # k) s = Some res"
  shows "length (fst res) = sum_list (map closes k) \<and> length (snd res) < length s"
  using assms(2)
proof (induction s)
  case Nil
  then show ?case by simp
next
  case (Cons x xs)
  show ?case
  proof (cases "rmatch (Chr a # k) (x # xs) [] None")
    case None
    with Cons show ?thesis by simp
  next
    case (Some r)
    with Cons.prems have "r = res" by simp
    with Some have xa: "x = a" and m: "rmatch k xs [] (push x None) = Some res"
      by (auto split: if_splits)
    from rmatch_groups[OF assms(1) m] show ?thesis by simp
  qed
qed

lemma execLoop_total:
  assumes "list_all plainOpt k"
  shows "\<exists>ms. execLoop (Chr a # k) s = Some ms
            \<and> list_all (\<lambda>m. length m = sum_list (map closes k)) ms"
proof (induction s rule: length_induct)
  case (1 s)
  show ?case
  proof (cases "exec (Chr a # k) s")
    case None
    then show ?thesis by (simp add: execLoop.simps[of _ s])
  next
    case (Some res)
    obtain m rest where res: "res = (m, rest)" by (cases res)
    from exec_groups[OF assms Some] res
    have len: "length m = sum_list (map closes k)" and sh: "length rest < length s" by simp_all
    from 1 sh obtain ms where ms: "execLoop (Chr a # k) rest = Some ms"
      "list_all (\<lambda>m. length m = sum_list (map closes k)) ms" by blast
    show ?thesis
      using Some res sh ms len by (simp add: execLoop.simps[of _ s])
  qed
qed

lemma padRegex_shape:
  "\<exists>k. padRegex = Chr CHR ''('' # k \<and> list_all plainOpt k \<and> sum_list (map closes k) = 5"
  by (simp add: padRegex_def lit_def)

lemma lineRegex_shape:
  "\<exists>k. lineRegex = Chr CHR ''('' # k \<and> list_all plainOpt k \<and> sum_list (map closes k) = 4"
  by (simp add: lineRegex_def lit_def)

lemma those_map_Some: "those (map Some xs) = Some xs"
  by (induction xs) simp_all

lemma those_eq_Some: "those xs = Some ys \<Longrightarrow> xs = map Some ys"
  by (induction xs arbitrary: ys) (auto split: option.splits)

lemma padOfMatch_total: "length m = 5 \<Longrightarrow> \<exists>p. padOfMatch m = Some p"
  by (cases m rule: padOfMatch.cases) simp_all

lemma lineOfMatch_total: "length m = 4 \<Longrightarrow> \<exists>p. lineOfMatch m = Some p"
  by (cases m rule: lineOfMatch.cases) simp_all

lemma map_total_those:
  assumes "list_all (\<lambda>m. \<exists>p. f m = Some p) ms"
  shows "\<exists>ps. those (map f ms) = Some ps \<and> map Some ps = map f ms"
  using assms
proof (induction ms)
  case Nil
  then show ?case by simp
next
  case (Cons m ms)
  then obtain p ps where "f m = Some p" "those (map f ms) = Some ps" "map Some ps = map f ms"
    by auto
  then show ?case by simp
qed

lemma parsePads_total:
  "\<exists>ms ps. execLoop padRegex s = Some ms \<and> parsePads s = Some ps \<and> map Some ps = map padOfMatch ms"
proof -
  from padRegex_shape obtain k where k: "padRegex = Chr CHR ''('' # k" "list_all plainOpt k"
    "sum_list (map closes k) = 5" by blast
  from execLoop_total[OF k(2), of "CHR ''(''" s] k obtain ms where
    ms: "execLoop padRegex s = Some ms" "list_all (\<lambda>m. length m = 5) ms" by auto
  from ms(2) have "list_all (\<lambda>m. \<exists>p. padOfMatch m = Some p) ms"
    by (induction ms) (auto dest: padOfMatch_total)
  from map_total_those[OF this] obtain ps where
    "those (map padOfMatch ms) = Some ps" "map Some ps = map padOfMatch ms" by blast
  with ms(1) show ?thesis by (simp add: parsePads_def)
qed

lemma parseLines_total:
  "\<exists>ms ls. execLoop lineRegex s = Some ms \<and> parseLines s = Some ls \<and> map Some ls = map lineOfMatch ms"
proof -
  from lineRegex_shape obtain k where k: "lineRegex = Chr CHR ''('' # k" "list_all plainOpt k"
    "sum_list (map closes k) = 4" by blast
  from execLoop_total[OF k(2), of "CHR ''(''" s] k obtain ms where
    ms: "execLoop lineRegex s = Some ms" "list_all (\<lambda>m. length m = 4) ms" by auto
  from ms(2) have "list_all (\<lambda>m. \<exists>p. lineOfMatch m = Some p) ms"
    by (induction ms) (auto dest: lineOfMatch_total)
  from map_total_those[OF this] obtain ls where
    "those (map lineOfMatch ms) = Some ls" "map Some ls = map lineOfMatch ms" by blast
  with ms(1) show ?thesis by (simp add: parseLines_def)
qed

text \<open>
  Claim C3, as amended. Nothing filters the pads by size. For every footprint string the
  drawing effect completes, and the pad list it keeps for drawing and for the click
  handler holds, in order, one pad for every match of the pad pattern, exactly as the loop
  body builds it from the match: a pad whose parsed width or height is zero or negative
  is not dropped.
\<close>

theorem no_pad_is_dropped:
  "execLoop padRegex kicadMod \<noteq> None
   \<and> map_option (\<lambda>v. map Some (padsRef v)) (footprintEffect kicadMod sel)
       = map_option (map padOfMatch) (execLoop padRegex kicadMod)"
proof -
  from parsePads_total[of kicadMod] obtain ms ps where
    p: "execLoop padRegex kicadMod = Some ms" "parsePads kicadMod = Some ps"
       "map Some ps = map padOfMatch ms" by blast
  from parseLines_total[of kicadMod] obtain ls where l: "parseLines kicadMod = Some ls" by blast
  show ?thesis
    by (simp add: footprintEffect_def p l Let_def del: execLoop.simps)
qed













text \<open>
  Claim C3 as stated fails: a pad record of size \<open>0 0\<close> stays in the pad list and is handed
  to the canvas as an empty rectangle.
\<close>

theorem zero_size_pad_counterexample:
  "footprintEffect ''(pad 1 smd rect (at 0 0) (size 0 0))'' None =
     Some \<lparr>padsRef = [\<lparr>pad_num = ''1'', pad_x = Fin 0, pad_y = Fin 0, pad_width = Fin 0, pad_height = Fin 0\<rparr>],
           transformRef = \<lparr>t_centerX = Fin 200, t_centerY = Fin 200, t_scale = Fin 120\<rparr>,
           scene = [FillPad ''1'' (Fin 200) (Fin 200) (Fin 0) (Fin 0) False]\<rparr>
   \<and> \<not> Fin 0 < pad_width \<lparr>pad_num = ''1'', pad_x = Fin 0, pad_y = Fin 0, pad_width = Fin 0, pad_height = Fin 0\<rparr>"
  by (simp add: regex_eval parse_eval view_eval)

section \<open>Properties of the view transform\<close>















section \<open>Properties of the parser on records and clean text\<close>

text \<open>How the matcher runs on a literal, on a greedy run, on a lazy run and on an option.\<close>

lemma fold_push_None: "fold push run None = None"
  by (induction run) (simp_all add: push_def)

lemma fold_push_Some: "fold push run (Some a) = Some (a @ run)"
  by (induction run arbitrary: a) (simp_all add: push_def)

lemma rmatch_lit:
  "rmatch (lit l @ k) (l @ s) caps cur = rmatch k s caps (fold push l cur)"
  by (induction l arbitrary: cur) (simp_all add: lit_def)

lemma rmatch_lit_fail:
  "\<not> prefix l s \<Longrightarrow> rmatch (lit l @ k) s caps cur = None"
proof (induction l arbitrary: s cur)
  case Nil
  then show ?case by simp
next
  case (Cons a l)
  then show ?case by (cases s) (auto simp add: lit_def)
qed

lemma rmatch_Star:
  assumes "rmatch k s caps (fold push run cur) = Some res"
    and "list_all C run" and "s = [] \<or> \<not> C (hd s)"
  shows "rmatch (Star C # k) (run @ s) caps cur = Some res"
  using assms(1,2)
proof (induction run arbitrary: cur)
  case Nil
  with assms(3) show ?case by (cases s) auto
next
  case (Cons c run)
  then have "rmatch (Star C # k) (run @ s) caps (push c cur) = Some res" by simp
  with Cons.prems show ?case by simp
qed

lemma rmatch_Plus:
  assumes "rmatch k s caps (fold push run cur) = Some res"
    and "run \<noteq> []" and "list_all C run" and "s = [] \<or> \<not> C (hd s)"
  shows "rmatch (Plus C # k) (run @ s) caps cur = Some res"
proof -
  from assms(2) obtain c run' where run: "run = c # run'" by (cases run) auto
  with assms have "rmatch (Star C # k) (run' @ s) caps (push c cur) = Some res"
    by (intro rmatch_Star) simp_all
  with run assms(3) show ?thesis by simp
qed

lemma rmatch_Lazy:
  assumes "rmatch (Chr CHR ''('' # k) s caps None = Some res" and "CHR ''('' \<notin> set mid"
  shows "rmatch (StarLazy is_any # Chr CHR ''('' # k) (mid @ s) caps None = Some res"
  using assms(2)
proof (induction mid)
  case Nil
  with assms(1) show ?case by (subst rmatch.simps(5)) (simp del: rmatch.simps)
next
  case (Cons c mid)
  then have ne: "c \<noteq> CHR ''(''"
    and ih: "rmatch (StarLazy is_any # Chr CHR ''('' # k) (mid @ s) caps None = Some res"
    by auto
  have f: "rmatch (Chr CHR ''('' # k) (c # mid @ s) caps None = None"
    using ne by simp
  have ia: "is_any c" by (simp add: is_any_def)
  have p: "push c None = None" by (simp add: push_def)
  show ?case
    by (subst rmatch.simps(5)) (simp add: f ia p ih del: rmatch.simps)
qed

lemma rmatch_Opt_skip:
  "rmatch (g @ k) s caps cur = None \<Longrightarrow> rmatch (Opt g # k) s caps cur = rmatch k s caps cur"
  by simp

lemma rmatch_Opt_take:
  "rmatch (g @ k) s caps cur = Some res \<Longrightarrow> rmatch (Opt g # k) s caps cur = Some res"
  by simp

lemma class_facts:
  "is_num c \<Longrightarrow> \<not> is_space c" "is_space c \<Longrightarrow> \<not> is_num c"
  "is_word c \<Longrightarrow> \<not> is_space c" "is_word c \<Longrightarrow> c \<noteq> CHR 0x22"
  "\<not> is_num CHR '')''" "\<not> is_space CHR '')''" "\<not> is_space CHR ''(''" "\<not> is_word CHR ''(''"
  "\<not> is_space CHR 0x22" "\<not> is_word CHR 0x22" "\<not> is_num CHR ''(''"
  by (auto simp add: is_num_def is_space_def is_digit_def is_word_def)

lemma hd_append_ne: "a \<noteq> [] \<Longrightarrow> hd (a @ b) = hd a"
  by simp

lemma isWs_hd: "isWs ws \<Longrightarrow> is_space (hd ws) \<and> ws \<noteq> []"
  by (cases ws) (simp_all add: isWs_def)

lemma isNumText_hd: "isNumText t \<Longrightarrow> is_num (hd t) \<and> t \<noteq> []"
  by (cases t) (simp_all add: isNumText_def)

lemma wsRun:
  assumes "isWs ws" and "s = [] \<or> \<not> is_space (hd s)"
    and "rmatch k s caps None = Some res"
  shows "rmatch (Plus is_space # k) (ws @ s) caps None = Some res"
  using assms by (intro rmatch_Plus) (simp_all add: fold_push_None isWs_def)

lemma numRun:
  assumes "isNumText t" and "s = [] \<or> \<not> is_num (hd s)"
    and "rmatch k s caps None = Some res"
  shows "rmatch (Plus is_num # k) (t @ s) caps None = Some res"
  using assms by (intro rmatch_Plus) (simp_all add: fold_push_None isNumText_def)

lemma numGroup:
  assumes "isNumText t" and "s = [] \<or> \<not> is_num (hd s)"
    and "rmatch k s (caps @ [t]) None = Some res"
  shows "rmatch (Open # Plus is_num # Close # k) (t @ s) caps None = Some res"
proof -
  have "rmatch (Close # k) s caps (fold push t (Some [])) = Some res"
    using assms(3) by (simp add: fold_push_Some)
  then have "rmatch (Plus is_num # Close # k) (t @ s) caps (Some []) = Some res"
    using assms(1,2) by (intro rmatch_Plus) (simp_all add: isNumText_def)
  then show ?thesis by simp
qed

lemma wsNum:
  assumes "isWs ws" and "isNumText t" and "s = [] \<or> \<not> is_num (hd s)"
    and "rmatch k s (caps @ [t]) None = Some res"
  shows "rmatch (Plus is_space # Open # Plus is_num # Close # k) (ws @ t @ s) caps None = Some res"
proof (rule wsRun[OF assms(1)])
  from isNumText_hd[OF assms(2)] show "t @ s = [] \<or> \<not> is_space (hd (t @ s))"
    by (simp add: class_facts)
  show "rmatch (Open # Plus is_num # Close # k) (t @ s) caps None = Some res"
    by (rule numGroup[OF assms(2,3,4)])
qed

lemma size_part:
  assumes "isWs sp4" "isNumText w" "isWs sp5" "isNumText h"
  shows "rmatch (lit ''(size'' @ [Plus is_space, Open, Plus is_num, Close,
                                  Plus is_space, Open, Plus is_num, Close] @ lit '')'')
           (''(size'' @ sp4 @ w @ sp5 @ h @ '')'' @ R) caps None = Some (caps @ [w, h], R)"
proof -
  have e: "rmatch (lit '')'') ('')'' @ R) (caps @ [w, h]) None = Some (caps @ [w, h], R)"
    using rmatch_lit[of "'')''" "[]" R "caps @ [w, h]" None] by (simp add: fold_push_None)
  have h: "rmatch (Plus is_space # Open # Plus is_num # Close # lit '')'')
             (sp5 @ h @ '')'' @ R) (caps @ [w]) None = Some (caps @ [w, h], R)"
    using e by (intro wsNum[OF assms(3,4)]) (simp_all add: class_facts)
  have w: "rmatch (Plus is_space # Open # Plus is_num # Close #
                   Plus is_space # Open # Plus is_num # Close # lit '')'')
             (sp4 @ w @ sp5 @ h @ '')'' @ R) caps None = Some (caps @ [w, h], R)"
    using h isWs_hd[OF assms(3)] by (intro wsNum[OF assms(1,2)]) (simp_all add: class_facts)
  have "rmatch (lit ''(size'' @ [Plus is_space, Open, Plus is_num, Close,
                                  Plus is_space, Open, Plus is_num, Close] @ lit '')'')
           (''(size'' @ sp4 @ w @ sp5 @ h @ '')'' @ R) caps None
        = rmatch ([Plus is_space, Open, Plus is_num, Close,
                                  Plus is_space, Open, Plus is_num, Close] @ lit '')'')
           (sp4 @ w @ sp5 @ h @ '')'' @ R) caps (fold push ''(size'' None)"
    by (rule rmatch_lit)
  also have "\<dots> = Some (caps @ [w, h], R)"
    using w by (simp only: fold_push_None append_Cons append_Nil)
  finally show ?thesis .
qed

lemma rmatch_lit_None:
  "rmatch (lit l @ k) (l @ s) caps None = rmatch k s caps None"
  by (simp only: rmatch_lit fold_push_None)

lemma lazy_lit:
  assumes "rmatch (lit (CHR ''('' # l) @ k) s caps None = Some res" and "CHR ''('' \<notin> set mid"
  shows "rmatch (StarLazy is_any # lit (CHR ''('' # l) @ k) (mid @ s) caps None = Some res"
proof -
  have e: "lit (CHR ''('' # l) @ k = Chr CHR ''('' # lit l @ k" by (simp add: lit_def)
  show ?thesis
    unfolding e using assms(1)[unfolded e] assms(2) by (rule rmatch_Lazy)
qed

lemma rot_part:
  assumes "case rot of None \<Rightarrow> True | Some (sp, t) \<Rightarrow> isWs sp \<and> isNumText t"
    and "rmatch (lit '')'' @ k) ('')'' @ s) caps None = Some res"
  shows "rmatch (Opt [Plus is_space, Plus is_num] # lit '')'' @ k)
           ((case rot of None \<Rightarrow> [] | Some (sp, t) \<Rightarrow> sp @ t) @ '')'' @ s) caps None = Some res"
proof (cases rot)
  case None
  have f: "rmatch ([Plus is_space, Plus is_num] @ lit '')'' @ k) ('')'' @ s) caps None = None"
    by (simp add: class_facts)
  have "rmatch (Opt [Plus is_space, Plus is_num] # lit '')'' @ k) ('')'' @ s) caps None = Some res"
    using rmatch_Opt_skip[OF f] assms(2) by (simp only:)
  then show ?thesis unfolding None by (simp only: option.case append_Nil)
next
  case (Some p)
  obtain sp t where p: "p = (sp, t)" by (cases p)
  from assms(1) have ws: "isWs sp" and nt: "isNumText t" by (simp_all add: Some p)
  have a: "rmatch (Plus is_num # lit '')'' @ k) (t @ '')'' @ s) caps None = Some res"
    using assms(2) by (intro numRun[OF nt]) (simp_all add: class_facts)
  have b: "rmatch (Plus is_space # Plus is_num # lit '')'' @ k) (sp @ t @ '')'' @ s) caps None
             = Some res"
    using a isNumText_hd[OF nt] by (intro wsRun[OF ws]) (simp_all add: class_facts)
  have c: "rmatch ([Plus is_space, Plus is_num] @ lit '')'' @ k) (sp @ t @ '')'' @ s) caps None
             = Some res"
    using b by (simp only: append_Cons append_Nil)
  have "rmatch (Opt [Plus is_space, Plus is_num] # lit '')'' @ k) ((sp @ t) @ '')'' @ s) caps None
          = Some res"
    using rmatch_Opt_take[OF c] by (simp only: append_assoc)
  then show ?thesis unfolding Some p by (simp only: option.case prod.case)
qed

lemma at_part:
  assumes "isWs sp2" "isNumText x" "isWs sp3" "isNumText y"
    and "case rot of None \<Rightarrow> True | Some (sp, t) \<Rightarrow> isWs sp \<and> isNumText t"
    and "rmatch k s (caps @ [x, y]) None = Some res"
  shows "rmatch (lit ''(at'' @ [Plus is_space, Open, Plus is_num, Close,
                                Plus is_space, Open, Plus is_num, Close,
                                Opt [Plus is_space, Plus is_num]] @ lit '')'' @ k)
           (''(at'' @ sp2 @ x @ sp3 @ y @ (case rot of None \<Rightarrow> [] | Some (sp, t) \<Rightarrow> sp @ t)
             @ '')'' @ s) caps None = Some res"
proof -
  let ?rt = "(case rot of None \<Rightarrow> [] | Some (sp, t) \<Rightarrow> sp @ t) @ '')'' @ s"
  have e: "(caps @ [x]) @ [y] = caps @ [x, y]" by simp
  have a: "rmatch (lit '')'' @ k) ('')'' @ s) ((caps @ [x]) @ [y]) None = Some res"
    using assms(6) by (simp only: rmatch_lit_None e)
  have b: "rmatch (Opt [Plus is_space, Plus is_num] # lit '')'' @ k) ?rt ((caps @ [x]) @ [y]) None
             = Some res"
    by (rule rot_part[OF assms(5) a])
  have hd: "?rt = [] \<or> \<not> is_num (hd ?rt)"
  proof (cases rot)
    case None
    then show ?thesis by (simp add: class_facts)
  next
    case (Some p)
    obtain sp t where p: "p = (sp, t)" by (cases p)
    from assms(5) have "isWs sp" by (simp add: Some p)
    from isWs_hd[OF this] show ?thesis by (simp add: Some p class_facts)
  qed
  have c: "rmatch (Plus is_space # Open # Plus is_num # Close #
                   Opt [Plus is_space, Plus is_num] # lit '')'' @ k)
             (sp3 @ y @ ?rt) (caps @ [x]) None = Some res"
    by (rule wsNum[OF assms(3,4) hd b])
  have hd2: "sp3 @ y @ ?rt = [] \<or> \<not> is_num (hd (sp3 @ y @ ?rt))"
    using isWs_hd[OF assms(3)] by (simp add: class_facts)
  have d: "rmatch (Plus is_space # Open # Plus is_num # Close #
                   Plus is_space # Open # Plus is_num # Close #
                   Opt [Plus is_space, Plus is_num] # lit '')'' @ k)
             (sp2 @ x @ sp3 @ y @ ?rt) caps None = Some res"
    by (rule wsNum[OF assms(1,2) hd2 c])
  have "rmatch (lit ''(at'' @ [Plus is_space, Open, Plus is_num, Close,
                                Plus is_space, Open, Plus is_num, Close,
                                Opt [Plus is_space, Plus is_num]] @ lit '')'' @ k)
           (''(at'' @ sp2 @ x @ sp3 @ y @ ?rt) caps None
        = rmatch ([Plus is_space, Open, Plus is_num, Close,
                                Plus is_space, Open, Plus is_num, Close,
                                Opt [Plus is_space, Plus is_num]] @ lit '')'' @ k)
           (sp2 @ x @ sp3 @ y @ ?rt) caps None"
    by (rule rmatch_lit_None)
  also have "\<dots> = Some res"
    using d by (simp only: append_Cons append_Nil)
  finally show ?thesis .
qed

lemma id_part:
  assumes "isWs sp1" "ident \<noteq> []" "list_all is_word ident"
    and "quoted \<or> s = [] \<or> (\<not> is_word (hd s) \<and> hd s \<noteq> CHR 0x22)"
    and "rmatch k s (caps @ [if quoted then [CHR 0x22] @ ident @ [CHR 0x22] else ident]) None
           = Some res"
  shows "rmatch (Plus is_space # Open # Opt [Chr CHR 0x22] # Plus is_word # Opt [Chr CHR 0x22]
                 # Close # k)
           (sp1 @ (if quoted then [CHR 0x22] @ ident @ [CHR 0x22] else ident) @ s) caps None
         = Some res"
proof (cases quoted)
  case True
  have a: "rmatch (Close # k) s caps (Some ([CHR 0x22] @ ident @ [CHR 0x22])) = Some res"
    using assms(5) True by simp
  have b: "rmatch (Opt [Chr CHR 0x22] # Close # k) (CHR 0x22 # s) caps
             (Some ([CHR 0x22] @ ident)) = Some res"
    using a by (simp add: push_def)
  have c: "rmatch (Plus is_word # Opt [Chr CHR 0x22] # Close # k) (ident @ CHR 0x22 # s) caps
             (Some [CHR 0x22]) = Some res"
    using b assms(2,3) by (intro rmatch_Plus) (simp_all add: fold_push_Some class_facts)
  have d: "rmatch (Open # Opt [Chr CHR 0x22] # Plus is_word # Opt [Chr CHR 0x22] # Close # k)
             (CHR 0x22 # ident @ CHR 0x22 # s) caps None = Some res"
    using c by (simp add: push_def)
  have "rmatch (Plus is_space # Open # Opt [Chr CHR 0x22] # Plus is_word # Opt [Chr CHR 0x22]
                 # Close # k) (sp1 @ CHR 0x22 # ident @ CHR 0x22 # s) caps None = Some res"
    using d by (intro wsRun[OF assms(1)]) (simp_all add: class_facts)
  then show ?thesis using True by simp
next
  case False
  from assms(2) obtain c0 cs where ident: "ident = c0 # cs" by (cases ident) auto
  with assms(3) have w0: "is_word c0" by simp
  have a: "rmatch (Close # k) s caps (Some ident) = Some res"
    using assms(5) False by simp
  have b: "rmatch (Opt [Chr CHR 0x22] # Close # k) s caps (Some ident) = Some res"
  proof (cases s)
    case Nil
    with a show ?thesis by simp
  next
    case (Cons e es)
    with assms(4) False have "e \<noteq> CHR 0x22" by simp
    with a Cons show ?thesis by simp
  qed
  have c: "rmatch (Plus is_word # Opt [Chr CHR 0x22] # Close # k) (ident @ s) caps (Some [])
             = Some res"
    using b assms(2,3,4) False by (intro rmatch_Plus) (auto simp add: fold_push_Some)
  have d: "rmatch (Open # Opt [Chr CHR 0x22] # Plus is_word # Opt [Chr CHR 0x22] # Close # k)
             (ident @ s) caps None = Some res"
    using c w0 class_facts(4)[OF w0] by (simp add: ident)
  have "rmatch (Plus is_space # Open # Opt [Chr CHR 0x22] # Plus is_word # Opt [Chr CHR 0x22]
                 # Close # k) (sp1 @ ident @ s) caps None = Some res"
    using d w0 by (intro wsRun[OF assms(1)]) (simp_all add: class_facts ident)
  then show ?thesis using False by simp
qed

lemma pad_match:
  assumes "wfPadText r"
  shows "rmatch padRegex (renderPad r @ R) [] None
           = Some ([idText r, pt_x r, pt_y r, pt_w r, pt_h r], R)"
proof -
  let ?res = "([idText r, pt_x r, pt_y r, pt_w r, pt_h r], R)"
  let ?Ksize = "lit ''(size'' @ [Plus is_space, Open, Plus is_num, Close,
                                  Plus is_space, Open, Plus is_num, Close] @ lit '')''"
  let ?Ssize = "''(size'' @ pt_sp4 r @ pt_w r @ pt_sp5 r @ pt_h r @ '')'' @ R"
  let ?Kat = "lit ''(at'' @ [Plus is_space, Open, Plus is_num, Close,
                                Plus is_space, Open, Plus is_num, Close,
                                Opt [Plus is_space, Plus is_num]] @ lit '')''
                @ StarLazy is_any # ?Ksize"
  let ?Sat = "''(at'' @ pt_sp2 r @ pt_x r @ pt_sp3 r @ pt_y r
                @ (case pt_rot r of None \<Rightarrow> [] | Some (sp, t) \<Rightarrow> sp @ t)
                @ '')'' @ pt_mid2 r @ ?Ssize"
  from assms have ws: "isWs (pt_sp1 r)" "isWs (pt_sp2 r)" "isWs (pt_sp3 r)" "isWs (pt_sp4 r)"
      "isWs (pt_sp5 r)"
    and idw: "pt_id r \<noteq> []" "list_all is_word (pt_id r)"
    and nums: "isNumText (pt_x r)" "isNumText (pt_y r)" "isNumText (pt_w r)" "isNumText (pt_h r)"
    and rot: "case pt_rot r of None \<Rightarrow> True | Some (sp, t) \<Rightarrow> isWs sp \<and> isNumText t"
    and mids: "CHR ''('' \<notin> set (pt_mid1 r)" "CHR ''('' \<notin> set (pt_mid2 r)"
    and after: "pt_quoted r \<or> pt_mid1 r = []
           \<or> (\<not> is_word (hd (pt_mid1 r)) \<and> hd (pt_mid1 r) \<noteq> CHR 0x22)"
    by (simp_all add: wfPadText_def)
  have e: "[idText r, pt_x r, pt_y r] @ [pt_w r, pt_h r] = [idText r, pt_x r, pt_y r, pt_w r, pt_h r]"
    "[idText r] @ [pt_x r, pt_y r] = [idText r, pt_x r, pt_y r]" "[] @ [idText r] = [idText r]"
    by simp_all
  have a: "rmatch ?Ksize ?Ssize [idText r, pt_x r, pt_y r] None = Some ?res"
    using size_part[OF ws(4) nums(3) ws(5) nums(4), of R "[idText r, pt_x r, pt_y r]"]
    by (simp only: e)
  have b: "rmatch (StarLazy is_any # ?Ksize) (pt_mid2 r @ ?Ssize) ([idText r] @ [pt_x r, pt_y r]) None
             = Some ?res"
    unfolding e by (rule lazy_lit[OF a mids(2)])
  have c: "rmatch ?Kat ?Sat [idText r] None = Some ?res"
    by (rule at_part[OF ws(2) nums(1) ws(3) nums(2) rot b])
  have d: "rmatch (StarLazy is_any # ?Kat) (pt_mid1 r @ ?Sat) ([] @ [idText r]) None = Some ?res"
    unfolding e by (rule lazy_lit[OF c mids(1)])
  have after': "pt_quoted r \<or> pt_mid1 r @ ?Sat = []
           \<or> (\<not> is_word (hd (pt_mid1 r @ ?Sat)) \<and> hd (pt_mid1 r @ ?Sat) \<noteq> CHR 0x22)"
    using after by (cases "pt_mid1 r") (auto simp add: class_facts)
  have f: "rmatch (Plus is_space # Open # Opt [Chr CHR 0x22] # Plus is_word # Opt [Chr CHR 0x22]
                 # Close # StarLazy is_any # ?Kat)
             (pt_sp1 r @ idText r @ pt_mid1 r @ ?Sat) [] None = Some ?res"
    unfolding idText_def
    by (rule id_part[OF ws(1) idw after' d[unfolded idText_def]])
  have "rmatch (lit ''(pad'' @ Plus is_space # Open # Opt [Chr CHR 0x22] # Plus is_word
                 # Opt [Chr CHR 0x22] # Close # StarLazy is_any # ?Kat)
          (''(pad'' @ pt_sp1 r @ idText r @ pt_mid1 r @ ?Sat) [] None = Some ?res"
    using f by (simp only: rmatch_lit_None)
  then show ?thesis
    unfolding padRegex_def renderPad_def rotText_def
    by (simp only: append_assoc append_Cons append_Nil)
qed

lemma ends_part:
  assumes "isWs spa" "isNumText x" "isWs spb" "isNumText y"
    and "rmatch k s (caps @ [x, y]) None = Some res"
  shows "rmatch ([Plus is_space, Open, Plus is_num, Close,
                  Plus is_space, Open, Plus is_num, Close] @ lit '')'' @ k)
           (spa @ x @ spb @ y @ '')'' @ s) caps None = Some res"
proof -
  have e: "(caps @ [x]) @ [y] = caps @ [x, y]" by simp
  have a: "rmatch (lit '')'' @ k) ('')'' @ s) ((caps @ [x]) @ [y]) None = Some res"
    using assms(5) by (simp only: rmatch_lit_None e)
  have hd: "'')'' @ s = [] \<or> \<not> is_num (hd ('')'' @ s))" by (simp add: class_facts)
  have c: "rmatch (Plus is_space # Open # Plus is_num # Close # lit '')'' @ k)
             (spb @ y @ '')'' @ s) (caps @ [x]) None = Some res"
    by (rule wsNum[OF assms(3,4) hd a])
  have hd2: "spb @ y @ '')'' @ s = [] \<or> \<not> is_num (hd (spb @ y @ '')'' @ s))"
    using isWs_hd[OF assms(3)] by (simp add: class_facts)
  have d: "rmatch (Plus is_space # Open # Plus is_num # Close #
                   Plus is_space # Open # Plus is_num # Close # lit '')'' @ k)
             (spa @ x @ spb @ y @ '')'' @ s) caps None = Some res"
    by (rule wsNum[OF assms(1,2) hd2 c])
  then show ?thesis by (simp only: append_Cons append_Nil)
qed

lemma line_match:
  assumes "wfLineText r"
  shows "rmatch lineRegex (renderLine r @ R) [] None
           = Some ([lt_x1 r, lt_y1 r, lt_x2 r, lt_y2 r], R)"
proof -
  let ?res = "([lt_x1 r, lt_y1 r, lt_x2 r, lt_y2 r], R)"
  let ?N = "[Plus is_space, Open, Plus is_num, Close, Plus is_space, Open, Plus is_num, Close]"
  from assms have ws: "isWs (lt_sp1 r)" "isWs (lt_sp2 r)" "isWs (lt_sp3 r)" "isWs (lt_sp4 r)"
      "isWs (lt_sp5 r)" "isWs (lt_sp6 r)"
    and nums: "isNumText (lt_x1 r)" "isNumText (lt_y1 r)" "isNumText (lt_x2 r)"
      "isNumText (lt_y2 r)"
    by (simp_all add: wfLineText_def)
  have e: "[lt_x1 r, lt_y1 r] @ [lt_x2 r, lt_y2 r] = [lt_x1 r, lt_y1 r, lt_x2 r, lt_y2 r]"
    "[] @ [lt_x1 r, lt_y1 r] = [lt_x1 r, lt_y1 r]"
    by simp_all
  have z: "rmatch [] R ([lt_x1 r, lt_y1 r] @ [lt_x2 r, lt_y2 r]) None = Some ?res"
    by simp
  have a: "rmatch (?N @ lit '')'' @ [])
             (lt_sp5 r @ lt_x2 r @ lt_sp6 r @ lt_y2 r @ '')'' @ R) [lt_x1 r, lt_y1 r] None
           = Some ?res"
    by (rule ends_part[OF ws(5) nums(3) ws(6) nums(4) z])
  have b: "rmatch (lit ''(end'' @ ?N @ lit '')'' @ [])
             (''(end'' @ lt_sp5 r @ lt_x2 r @ lt_sp6 r @ lt_y2 r @ '')'' @ R) [lt_x1 r, lt_y1 r] None
           = Some ?res"
    using a by (simp only: rmatch_lit_None)
  have c: "rmatch (Plus is_space # lit ''(end'' @ ?N @ lit '')'' @ [])
             (lt_sp4 r @ ''(end'' @ lt_sp5 r @ lt_x2 r @ lt_sp6 r @ lt_y2 r @ '')'' @ R)
             ([] @ [lt_x1 r, lt_y1 r]) None
           = Some ?res"
    unfolding e using b by (intro wsRun[OF ws(4)]) (simp_all add: class_facts)
  have d: "rmatch (?N @ lit '')'' @ Plus is_space # lit ''(end'' @ ?N @ lit '')'' @ [])
             (lt_sp2 r @ lt_x1 r @ lt_sp3 r @ lt_y1 r @ '')'' @ lt_sp4 r @ ''(end'' @ lt_sp5 r
               @ lt_x2 r @ lt_sp6 r @ lt_y2 r @ '')'' @ R) [] None
           = Some ?res"
    by (rule ends_part[OF ws(2) nums(1) ws(3) nums(2) c])
  have f: "rmatch (lit ''(start'' @ ?N @ lit '')'' @ Plus is_space # lit ''(end'' @ ?N @ lit '')'' @ [])
             (''(start'' @ lt_sp2 r @ lt_x1 r @ lt_sp3 r @ lt_y1 r @ '')'' @ lt_sp4 r @ ''(end''
               @ lt_sp5 r @ lt_x2 r @ lt_sp6 r @ lt_y2 r @ '')'' @ R) [] None
           = Some ?res"
    using d by (simp only: rmatch_lit_None)
  have g: "rmatch (Plus is_space # lit ''(start'' @ ?N @ lit '')'' @ Plus is_space # lit ''(end''
                    @ ?N @ lit '')'' @ [])
             (lt_sp1 r @ ''(start'' @ lt_sp2 r @ lt_x1 r @ lt_sp3 r @ lt_y1 r @ '')'' @ lt_sp4 r
               @ ''(end'' @ lt_sp5 r @ lt_x2 r @ lt_sp6 r @ lt_y2 r @ '')'' @ R) [] None
           = Some ?res"
    using f by (intro wsRun[OF ws(1)]) (simp_all add: class_facts)
  have "rmatch (lit ''(fp_line'' @ Plus is_space # lit ''(start'' @ ?N @ lit '')'' @ Plus is_space
                  # lit ''(end'' @ ?N @ lit '')'' @ [])
             (''(fp_line'' @ lt_sp1 r @ ''(start'' @ lt_sp2 r @ lt_x1 r @ lt_sp3 r @ lt_y1 r @ '')''
               @ lt_sp4 r @ ''(end'' @ lt_sp5 r @ lt_x2 r @ lt_sp6 r @ lt_y2 r @ '')'' @ R) [] None
           = Some ?res"
    using g by (simp only: rmatch_lit_None)
  then show ?thesis
    unfolding lineRegex_def renderLine_def
    by (simp only: append_assoc append_Cons append_Nil append_Nil2)
qed

lemma opensNowhere_append:
  "opensNowhere op (A @ B) R = (opensNowhere op A (B @ R) \<and> opensNowhere op B R)"
  by (induction A) simp_all

lemma opensNowhere_notin:
  "o1 \<notin> set A \<Longrightarrow> opensNowhere (o1 # ops) A R"
  by (induction A) simp_all

lemma opensNowhere_extend:
  assumes "opensNowhere (CHR ''('' # ops) g []" and "CHR ''('' \<notin> set ops"
    and "R = [] \<or> hd R = CHR ''(''"
  shows "opensNowhere (CHR ''('' # ops) g R"
  using assms(1)
proof (induction g)
  case Nil
  then show ?case by simp
next
  case (Cons c cs)
  have "\<not> prefix (CHR ''('' # ops) ((c # cs) @ R)"
  proof
    assume "prefix (CHR ''('' # ops) ((c # cs) @ R)"
    then consider "prefix (CHR ''('' # ops) (c # cs)"
      | us where "CHR ''('' # ops = (c # cs) @ us" "prefix us R"
      unfolding prefix_append by blast
    then show False
    proof cases
      case 1
      with Cons.prems show ?thesis by simp
    next
      case 2
      show ?thesis
      proof (cases us)
        case Nil
        with 2 Cons.prems show ?thesis by simp
      next
        case (Cons u us')
        with 2(2) assms(3) have "u = CHR ''(''" by (cases R) auto
        with 2(1) Cons have "CHR ''('' \<in> set ops" by auto
        with assms(2) show ?thesis by simp
      qed
    qed
  qed
  with Cons show ?case by simp
qed

lemma no_paren:
  "list_all C A \<Longrightarrow> \<not> C CHR ''('' \<Longrightarrow> CHR ''('' \<notin> set A"
  by (induction A) auto

lemma text_no_paren:
  "isWs s \<Longrightarrow> CHR ''('' \<notin> set s" "isNumText s \<Longrightarrow> CHR ''('' \<notin> set s"
  "list_all is_word s \<Longrightarrow> CHR ''('' \<notin> set s"
  using no_paren[of is_space s] no_paren[of is_num s] no_paren[of is_word s]
  by (simp_all add: isWs_def isNumText_def class_facts)

lemma line_quiet:
  assumes "wfLineText r"
  shows "opensNowhere ''(pad'' (renderLine r) R"
proof -
  from assms have ws: "CHR ''('' \<notin> set (lt_sp1 r)" "CHR ''('' \<notin> set (lt_sp2 r)"
      "CHR ''('' \<notin> set (lt_sp3 r)" "CHR ''('' \<notin> set (lt_sp4 r)" "CHR ''('' \<notin> set (lt_sp5 r)"
      "CHR ''('' \<notin> set (lt_sp6 r)" "CHR ''('' \<notin> set (lt_x1 r)" "CHR ''('' \<notin> set (lt_y1 r)"
      "CHR ''('' \<notin> set (lt_x2 r)" "CHR ''('' \<notin> set (lt_y2 r)"
    by (simp_all add: wfLineText_def text_no_paren)
  show ?thesis
    unfolding renderLine_def by (simp add: opensNowhere_append opensNowhere_notin ws)
qed

lemma pad_quiet:
  assumes "wfPadText r"
  shows "opensNowhere ''(fp_line'' (renderPad r) R"
proof -
  from assms have ws: "CHR ''('' \<notin> set (pt_sp1 r)" "CHR ''('' \<notin> set (pt_sp2 r)"
      "CHR ''('' \<notin> set (pt_sp3 r)" "CHR ''('' \<notin> set (pt_sp4 r)" "CHR ''('' \<notin> set (pt_sp5 r)"
      "CHR ''('' \<notin> set (pt_id r)" "CHR ''('' \<notin> set (pt_x r)" "CHR ''('' \<notin> set (pt_y r)"
      "CHR ''('' \<notin> set (pt_w r)" "CHR ''('' \<notin> set (pt_h r)"
      "CHR ''('' \<notin> set (pt_mid1 r)" "CHR ''('' \<notin> set (pt_mid2 r)"
    by (simp_all add: wfPadText_def text_no_paren)
  have id: "CHR ''('' \<notin> set (idText r)"
    using ws(6) by (simp add: idText_def)
  have rot: "CHR ''('' \<notin> set (rotText r)"
  proof (cases "pt_rot r")
    case None
    then show ?thesis by (simp add: rotText_def)
  next
    case (Some p)
    obtain sp t where p: "p = (sp, t)" by (cases p)
    from assms have "isWs sp" "isNumText t"
      by (simp_all add: wfPadText_def Some p)
    then have "CHR ''('' \<notin> set sp" "CHR ''('' \<notin> set t"
      by (simp_all add: text_no_paren)
    then show ?thesis by (simp add: rotText_def Some p)
  qed
  show ?thesis
    unfolding renderPad_def by (simp add: opensNowhere_append opensNowhere_notin ws id rot)
qed

lemma renderRec_hd:
  "wfItems items \<Longrightarrow> renderItems items = [] \<or> hd (renderItems items) = CHR ''(''"
proof (cases items)
  case Nil
  then show ?thesis by simp
next
  case (Cons it rest)
  obtain rc g where it: "it = (rc, g)" by (cases it)
  show ?thesis by (cases rc) (simp_all add: Cons it renderPad_def renderLine_def)
qed

lemma garbage_quiet:
  assumes "cleanGarbage g" and "wfItems items"
  shows "opensNowhere ''(pad'' g (renderItems items)"
    and "opensNowhere ''(fp_line'' g (renderItems items)"
  using assms(1) renderRec_hd[OF assms(2)]
  by (auto simp add: cleanGarbage_def intro!: opensNowhere_extend)

lemma exec_skip:
  "opensNowhere op T R \<Longrightarrow> exec (lit op @ k) (T @ R) = exec (lit op @ k) R"
proof (induction T)
  case Nil
  then show ?case by simp
next
  case (Cons c cs)
  then have "\<not> prefix op (c # cs @ R)" and ih: "exec (lit op @ k) (cs @ R) = exec (lit op @ k) R"
    by simp_all
  from rmatch_lit_fail[OF this(1)] have "rmatch (lit op @ k) (c # cs @ R) [] None = None" .
  with ih show ?case by simp
qed

lemma exec_hit:
  "rmatch re s [] None = Some res \<Longrightarrow> exec re s = Some res"
  by (cases s) simp_all

lemma exec_end:
  "op \<noteq> [] \<Longrightarrow> exec (lit op @ k) [] = None"
  using rmatch_lit_fail[of op "[]" k "[]" None] by (cases op) simp_all

lemma padRegex_lit: "\<exists>k. padRegex = lit ''(pad'' @ k"
  unfolding padRegex_def by blast

lemma lineRegex_lit: "\<exists>k. lineRegex = lit ''(fp_line'' @ k"
  unfolding lineRegex_def by blast

lemma execLoop_pads:
  assumes "wfItems items" and "opensNowhere ''(pad'' T (renderItems items)"
  shows "execLoop padRegex (T @ renderItems items) = Some (padMatches items)"
  using assms
proof (induction items arbitrary: T)
  case Nil
  from padRegex_lit obtain k where k: "padRegex = lit ''(pad'' @ k" ..
  have "exec padRegex (T @ []) = exec padRegex []"
    unfolding k using Nil.prems(2) by (intro exec_skip) simp
  also have "\<dots> = None" unfolding k by (rule exec_end) simp
  finally show ?case by (simp add: execLoop.simps[of _ T])
next
  case (Cons it items)
  obtain rc g where it: "it = (rc, g)" by (cases it)
  from Cons.prems(1) have wf: "wfRec rc" "cleanGarbage g" "wfItems items" by (simp_all add: it)
  from padRegex_lit obtain k where k: "padRegex = lit ''(pad'' @ k" ..
  show ?case
  proof (cases rc)
    case (PadRec r)
    let ?R = "g @ renderItems items"
    from wf(1) PadRec have wfr: "wfPadText r" by simp
    have q: "opensNowhere ''(pad'' T (renderPad r @ ?R)"
      using Cons.prems(2) by (simp add: it PadRec)
    have "exec padRegex (T @ renderPad r @ ?R) = exec padRegex (renderPad r @ ?R)"
      unfolding k by (rule exec_skip[OF q])
    also have "\<dots> = Some ([idText r, pt_x r, pt_y r, pt_w r, pt_h r], ?R)"
      by (rule exec_hit[OF pad_match[OF wfr]])
    finally have e: "exec padRegex (T @ renderPad r @ ?R)
                       = Some ([idText r, pt_x r, pt_y r, pt_w r, pt_h r], ?R)" .
    have len: "renderPad r \<noteq> []"
      by (simp add: renderPad_def)
    have ih: "execLoop padRegex ?R = Some (padMatches items)"
      by (rule Cons.IH[OF wf(3) garbage_quiet(1)[OF wf(2,3)]])
    have "execLoop padRegex (T @ renderPad r @ ?R)
            = Some ([idText r, pt_x r, pt_y r, pt_w r, pt_h r] # padMatches items)"
      by (subst execLoop.simps) (simp add: e len ih del: execLoop.simps)
    then show ?thesis by (simp add: it PadRec del: execLoop.simps)
  next
    case (LineRec r)
    from wf(1) LineRec have wfr: "wfLineText r" by simp
    have q: "opensNowhere ''(pad'' (T @ renderLine r @ g) (renderItems items)"
      using Cons.prems(2) line_quiet[OF wfr, of "g @ renderItems items"]
        garbage_quiet(1)[OF wf(2,3)]
      by (simp add: opensNowhere_append it LineRec)
    from Cons.IH[OF wf(3) q] show ?thesis
      by (simp add: it LineRec del: execLoop.simps)
  qed
qed

lemma execLoop_lines:
  assumes "wfItems items" and "opensNowhere ''(fp_line'' T (renderItems items)"
  shows "execLoop lineRegex (T @ renderItems items) = Some (lineMatches items)"
  using assms
proof (induction items arbitrary: T)
  case Nil
  from lineRegex_lit obtain k where k: "lineRegex = lit ''(fp_line'' @ k" ..
  have "exec lineRegex (T @ []) = exec lineRegex []"
    unfolding k using Nil.prems(2) by (intro exec_skip) simp
  also have "\<dots> = None" unfolding k by (rule exec_end) simp
  finally show ?case by (simp add: execLoop.simps[of _ T])
next
  case (Cons it items)
  obtain rc g where it: "it = (rc, g)" by (cases it)
  from Cons.prems(1) have wf: "wfRec rc" "cleanGarbage g" "wfItems items" by (simp_all add: it)
  from lineRegex_lit obtain k where k: "lineRegex = lit ''(fp_line'' @ k" ..
  show ?case
  proof (cases rc)
    case (LineRec r)
    let ?R = "g @ renderItems items"
    from wf(1) LineRec have wfr: "wfLineText r" by simp
    have q: "opensNowhere ''(fp_line'' T (renderLine r @ ?R)"
      using Cons.prems(2) by (simp add: it LineRec)
    have "exec lineRegex (T @ renderLine r @ ?R) = exec lineRegex (renderLine r @ ?R)"
      unfolding k by (rule exec_skip[OF q])
    also have "\<dots> = Some ([lt_x1 r, lt_y1 r, lt_x2 r, lt_y2 r], ?R)"
      by (rule exec_hit[OF line_match[OF wfr]])
    finally have e: "exec lineRegex (T @ renderLine r @ ?R)
                       = Some ([lt_x1 r, lt_y1 r, lt_x2 r, lt_y2 r], ?R)" .
    have len: "renderLine r \<noteq> []"
      by (simp add: renderLine_def)
    have ih: "execLoop lineRegex ?R = Some (lineMatches items)"
      by (rule Cons.IH[OF wf(3) garbage_quiet(2)[OF wf(2,3)]])
    have "execLoop lineRegex (T @ renderLine r @ ?R)
            = Some ([lt_x1 r, lt_y1 r, lt_x2 r, lt_y2 r] # lineMatches items)"
      by (subst execLoop.simps) (simp add: e len ih del: execLoop.simps)
    then show ?thesis by (simp add: it LineRec del: execLoop.simps)
  next
    case (PadRec r)
    from wf(1) PadRec have wfr: "wfPadText r" by simp
    have q: "opensNowhere ''(fp_line'' (T @ renderPad r @ g) (renderItems items)"
      using Cons.prems(2) pad_quiet[OF wfr, of "g @ renderItems items"]
        garbage_quiet(2)[OF wf(2,3)]
      by (simp add: opensNowhere_append it PadRec)
    from Cons.IH[OF wf(3) q] show ?thesis
      by (simp add: it PadRec del: execLoop.simps)
  qed
qed

lemma unquote_id:
  "wfPadText r \<Longrightarrow> filter (\<lambda>c. c \<noteq> CHR 0x22) (idText r) = pt_id r"
proof -
  assume "wfPadText r"
  then have "list_all is_word (pt_id r)" by (simp add: wfPadText_def)
  then have "filter (\<lambda>c. c \<noteq> CHR 0x22) (pt_id r) = pt_id r"
    by (induction "pt_id r") (auto simp add: list_all_iff class_facts(4) filter_id_conv)
  then show ?thesis by (simp add: idText_def)
qed

lemma those_padMatches:
  "wfItems items \<Longrightarrow> those (map padOfMatch (padMatches items)) = Some (padsOf items)"
proof (induction items rule: padMatches.induct)
  case 1
  then show ?case by simp
next
  case (2 r g items)
  then show ?case by (simp add: unquote_id)
next
  case (3 r g items)
  then show ?case by simp
qed

lemma those_lineMatches:
  "those (map lineOfMatch (lineMatches items)) = Some (linesOf items)"
  by (induction items rule: lineMatches.induct) simp_all

text \<open>
  Claim C8, as amended. A footprint string that is clean text followed by well-formed pad
  and line records, each followed by clean text, is parsed into one pad for every pad
  record and one line for every line record, in the order of the records: the identifier
  without its quotes, every numeric field as \<^verbatim>\<open>parseFloat\<close> reads the written text, the
  rotation ignored.
\<close>

theorem records_are_parsed:
  assumes "cleanGarbage g0" and "wfItems items"
  shows "parsePads (g0 @ renderItems items) = Some (padsOf items)
         \<and> parseLines (g0 @ renderItems items) = Some (linesOf items)"
  using execLoop_pads[OF assms(2) garbage_quiet(1)[OF assms]]
    execLoop_lines[OF assms(2) garbage_quiet(2)[OF assms]]
    those_padMatches[OF assms(2)] those_lineMatches[of items]
  by (simp add: parsePads_def parseLines_def del: execLoop.simps)

lemmas text_eval = pad_1_def pad_2_def line_1_def wfPadText_def wfLineText_def isWs_def
  isNumText_def cleanGarbage_def renderPad_def renderLine_def idText_def rotText_def

theorem records_are_parsed_witness:
  "cleanGarbage ''(footprint R '' \<and> cleanGarbage '' (layers F)) '' \<and> cleanGarbage '' (layer F))''
   \<and> wfPadText pad_1 \<and> wfLineText line_1
   \<and> wfItems [(PadRec pad_1, '' (layers F)) ''), (LineRec line_1, '' (layer F))'')]
   \<and> ''(footprint R '' @ renderItems [(PadRec pad_1, '' (layers F)) ''), (LineRec line_1, '' (layer F))'')]
       = ''(footprint R (pad '' @ [CHR 0x22] @ ''A1'' @ [CHR 0x22]
           @ '' smd rect (at 1.5 -2 90) (size 1 0.5) (layers F)) (fp_line (start -1 0) (end 1 0) (layer F))''
   \<and> parsePads (''(footprint R '' @ renderItems [(PadRec pad_1, '' (layers F)) ''), (LineRec line_1, '' (layer F))'')])
       = Some [\<lparr>pad_num = ''A1'', pad_x = Fin 1.5, pad_y = Fin (- 2), pad_width = Fin 1, pad_height = Fin 0.5\<rparr>]
   \<and> parseLines (''(footprint R '' @ renderItems [(PadRec pad_1, '' (layers F)) ''), (LineRec line_1, '' (layer F))'')])
       = Some [\<lparr>line_x1 = Fin (- 1), line_y1 = Fin 0, line_x2 = Fin 1, line_y2 = Fin 0\<rparr>]"
proof -
  let ?items = "[(PadRec pad_1, '' (layers F)) ''), (LineRec line_1, '' (layer F))'')]"
  have g: "cleanGarbage ''(footprint R ''" "cleanGarbage '' (layers F)) ''"
    "cleanGarbage '' (layer F))''"
    by (simp_all add: cleanGarbage_def)
  have w: "wfPadText pad_1" "wfLineText line_1"
    by (simp_all add: text_eval is_space_def is_num_def is_digit_def is_word_def)
  have i: "wfItems ?items" using g w by simp
  have r: "''(footprint R '' @ renderItems ?items
       = ''(footprint R (pad '' @ [CHR 0x22] @ ''A1'' @ [CHR 0x22]
           @ '' smd rect (at 1.5 -2 90) (size 1 0.5) (layers F)) (fp_line (start -1 0) (end 1 0) (layer F))''"
    by (simp add: text_eval)
  have p: "padsOf ?items
      = [\<lparr>pad_num = ''A1'', pad_x = Fin 1.5, pad_y = Fin (- 2), pad_width = Fin 1, pad_height = Fin 0.5\<rparr>]"
    by (simp add: pad_1_def parseFloat_def digitsVal_def digitVal_def parseExponent_def
        is_space_def is_digit_def)
  have l: "linesOf ?items
      = [\<lparr>line_x1 = Fin (- 1), line_y1 = Fin 0, line_x2 = Fin 1, line_y2 = Fin 0\<rparr>]"
    by (simp add: line_1_def parseFloat_def digitsVal_def digitVal_def parseExponent_def
        is_space_def is_digit_def)
  note t = records_are_parsed[OF g(1) i, unfolded p l]
  from g w i r t show ?thesis by blast
qed

text \<open>
  Claim C8 as stated fails for arbitrary text between the records: the text
  \<^verbatim>\<open>(pad 9 (at 5 5) \<close> in front of the one well-formed record \<^verbatim>\<open>(pad 1 smd (at 0 0) (size 1 1)\<close>
  makes the parser return a pad \<open>9\<close> at \<open>(5, 5)\<close>, where the record describes the pad \<open>1\<close> at
  \<open>(0, 0)\<close>.
\<close>

theorem pad_opener_in_garbage_counterexample:
  "wfItems [(PadRec pad_2, '')'')]
   \<and> ''(pad 9 (at 5 5) '' @ renderItems [(PadRec pad_2, '')'')]
       = ''(pad 9 (at 5 5) (pad 1 smd (at 0 0) (size 1 1))''
   \<and> padsOf [(PadRec pad_2, '')'')]
       = [\<lparr>pad_num = ''1'', pad_x = Fin 0, pad_y = Fin 0, pad_width = Fin 1, pad_height = Fin 1\<rparr>]
   \<and> parsePads ''(pad 9 (at 5 5) (pad 1 smd (at 0 0) (size 1 1))''
       = Some [\<lparr>pad_num = ''9'', pad_x = Fin 5, pad_y = Fin 5, pad_width = Fin 1, pad_height = Fin 1\<rparr>]"
proof -
  have w: "wfItems [(PadRec pad_2, '')'')]"
    by (simp add: text_eval is_space_def is_num_def is_digit_def is_word_def)
  have r: "''(pad 9 (at 5 5) '' @ renderItems [(PadRec pad_2, '')'')]
             = ''(pad 9 (at 5 5) (pad 1 smd (at 0 0) (size 1 1))''"
    by (simp add: text_eval)
  have p: "padsOf [(PadRec pad_2, '')'')]
       = [\<lparr>pad_num = ''1'', pad_x = Fin 0, pad_y = Fin 0, pad_width = Fin 1, pad_height = Fin 1\<rparr>]"
    by (simp add: pad_2_def parseFloat_def digitsVal_def digitVal_def parseExponent_def
        is_space_def is_digit_def)
  have e: "parsePads ''(pad 9 (at 5 5) (pad 1 smd (at 0 0) (size 1 1))''
       = Some [\<lparr>pad_num = ''9'', pad_x = Fin 5, pad_y = Fin 5, pad_width = Fin 1, pad_height = Fin 1\<rparr>]"
    by (simp add: regex_eval parse_eval)
  from w r p e show ?thesis by blast
qed

end
